theory Spec2Isabelle
  imports Main "HOL-Library.Word" "HOL-Library.Sublist"
begin

section \<open>The node tree of \<open>trie.hpp\<close>\<close>

text \<open>
  \<open>trie<T, KeyType>\<close> is a template. A symbol (\<open>KeyType\<close>) is any type with the
  operators \<open><\<close> and \<open>==\<close> of an arithmetic type: a linear order whose greatest element
  \<open>top\<close> is \<open>std::numeric_limits<KeyType>::max()\<close> and whose \<open>0\<close> is the value-initialised
  \<open>KeyType()\<close>.  A value (\<open>T\<close>) is \<open>'v option\<close>: \<open>None\<close> is the value-initialised \<open>T()\<close>
  that a fresh node holds, \<open>Some v\<close> a value written by \<open>insert\<close>.

  \<open>struct trie_node\<close>: the fields \<open>data_.first\<close>, \<open>data_.second\<close>, \<open>is_leaf_\<close> and
  \<open>children_\<close>.  Every node is owned by exactly one \<open>children_\<close> vector, so the heap of
  nodes is a tree and \<open>std::vector<trie_node*> children_\<close> is the list of the subtrees.
  The back pointer \<open>parent_\<close> is not a field of the datatype: the code sets it to the
  owning node wherever a node is created or copied, so it is determined by the
  position of the node in the tree (see \<open>node_ptr\<close> below).
\<close>

datatype ('k, 'v) trie_node =
  Node (data_first: 'k) (data_second: "'v option") (is_leaf: bool)
       (children: "('k, 'v) trie_node list")

text \<open>
  A \<open>trie_node*\<close> is the position of the node: the list of child indices leading from
  \<open>top_\<close> to it.  \<open>[]\<close> is \<open>top_\<close> itself, \<open>node->parent_\<close> is \<open>butlast node\<close>, and
  \<open>node->parent_ == nullptr\<close> holds exactly for \<open>[]\<close>.  A position is valid for the tree
  it was computed in.  Dereferencing a position that names no node is undefined
  behaviour (\<open>node_at\<close> returns \<open>None\<close>).
\<close>

type_synonym node_ptr = "nat list"

type_synonym 'k key_string = "'k list"

text \<open>
  The exceptions of the code, and undefined behaviour (a null or dangling pointer
  dereferenced, \<open>front()\<close> or \<open>back()\<close> of an empty vector, the end iterator of a vector
  incremented).  \<open>EmptyKey\<close> is \<open>out_of_range("Empty key couldn't be added")\<close>,
  \<open>DuplicateKey\<close> is \<open>out_of_range("Key already exists")\<close>, \<open>EmptySubkey\<close> is
  \<open>invalid_argument("Advance with zero prefix")\<close>, \<open>NoSuchPrefix\<close> is
  \<open>runtime_error("No such prefix")\<close>, \<open>IncrementEnd\<close> is
  \<open>out_of_range("Iterator to end couldn't be incremented")\<close> and \<open>DecrementBegin\<close> is
  \<open>out_of_range("Begin iterator couldn't be decremented")\<close>.
\<close>

datatype error =
  EmptyKey | DuplicateKey | EmptySubkey | NoSuchPrefix | IncrementEnd | DecrementBegin
  | UndefinedBehaviour

text \<open>
  \<open>class trie\<close>: the members \<open>top_\<close> and \<open>size_\<close>, here \<open>top_node\<close> and \<open>size_count\<close>
  (a name cannot end with an underscore).  The methods of the class carry the prefix
  \<open>trie_\<close> (\<open>trie_insert\<close> is \<open>trie::insert\<close>), those of the iterator the prefix \<open>iter_\<close>
  (\<open>iter_incr\<close> is \<open>operator++\<close>, \<open>iter_decr\<close> is \<open>operator--\<close>).
\<close>

record ('k, 'v) trie =
  top_node :: "('k, 'v) trie_node"
  size_count :: nat

fun set_is_leaf :: "bool \<Rightarrow> ('k, 'v) trie_node \<Rightarrow> ('k, 'v) trie_node" where
  "set_is_leaf b (Node s v l cs) = Node s v b cs"

fun set_children :: "('k, 'v) trie_node list \<Rightarrow> ('k, 'v) trie_node \<Rightarrow> ('k, 'v) trie_node" where
  "set_children cs' (Node s v l cs) = Node s v l cs'"

fun set_data_second :: "'v option \<Rightarrow> ('k, 'v) trie_node \<Rightarrow> ('k, 'v) trie_node" where
  "set_data_second v' (Node s v l cs) = Node s v' l cs"

text \<open>\<open>*node\<close> for a pointer \<open>node\<close>, read in the tree under \<open>n\<close>.\<close>

fun node_at :: "('k, 'v) trie_node \<Rightarrow> node_ptr \<Rightarrow> ('k, 'v) trie_node option" where
  "node_at n [] = Some n"
| "node_at n (i # p) = (if i < length (children n) then node_at (children n ! i) p else None)"

text \<open>A write through a pointer: the node at \<open>p\<close> becomes \<open>f\<close> of itself.\<close>

fun update_at ::
  "(('k, 'v) trie_node \<Rightarrow> ('k, 'v) trie_node) \<Rightarrow> node_ptr \<Rightarrow> ('k, 'v) trie_node \<Rightarrow> ('k, 'v) trie_node"
where
  "update_at f [] n = f n"
| "update_at f (i # p) n =
     (if i < length (children n)
      then set_children ((children n)[i := update_at f p (children n ! i)]) n
      else n)"

subsection \<open>The sorted child index\<close>

text \<open>
  \<open>trie_node::find_by_key\<close>: binary search between the vector iterators \<open>left\<close> and
  \<open>right\<close>, here indices.  \<open>None\<close> is the result \<open>children_.end()\<close>.
\<close>

function bsearch ::
  "('k::linorder, 'v) trie_node list \<Rightarrow> 'k \<Rightarrow> nat \<Rightarrow> nat \<Rightarrow> nat option"
where
  "bsearch cs key_char left right =
     (if left < right
      then (if data_first (cs ! (left + (right - left) div 2)) = key_char
            then Some (left + (right - left) div 2)
            else if data_first (cs ! (left + (right - left) div 2)) > key_char
            then bsearch cs key_char left (left + (right - left) div 2)
            else bsearch cs key_char (left + (right - left) div 2 + 1) right)
      else None)"
  by pat_completeness auto
termination
  by (relation "measure (\<lambda>(cs, k, l, r). r - l)") auto

declare bsearch.simps [simp del]

definition find_by_key :: "('k::linorder, 'v) trie_node list \<Rightarrow> 'k \<Rightarrow> nat option" where
  "find_by_key cs key_char = bsearch cs key_char 0 (length cs)"

text \<open>
  \<open>trie_node::push_child\<close>: \<open>push_back\<close>, then the loop over the reverse iterators
  \<open>r_iter\<close> (at the new child) and \<open>next_r_iter\<close> (at its left neighbour).  \<open>bubble\<close> is
  that loop on the vector as the reverse iterators see it (last element first): the
  new child stops when it is greater than its neighbour, or at \<open>rend()\<close>; otherwise the
  two are swapped.  The second result is the index at which the new child comes to
  rest, which is its pointer from then on.
\<close>

fun bubble ::
  "('k::linorder, 'v) trie_node \<Rightarrow> ('k, 'v) trie_node list \<Rightarrow> ('k, 'v) trie_node list \<times> nat"
where
  "bubble child [] = ([child], 0)"
| "bubble child (n # ns) =
     (if data_first child > data_first n then (child # n # ns, Suc (length ns))
      else (case bubble child ns of (r, i) \<Rightarrow> (n # r, i)))"

definition push_child ::
  "('k::linorder, 'v) trie_node list \<Rightarrow> ('k, 'v) trie_node \<Rightarrow> ('k, 'v) trie_node list \<times> nat"
where
  "push_child cs child = (case bubble child (rev cs) of (r, i) \<Rightarrow> (rev r, i))"

text \<open>
  \<open>trie_node::remove_child\<close>: \<open>std::find\<close> of the pointer, \<open>erase\<close> of that slot (and
  \<open>delete\<close> of the subtree).  The pointer of a child is its index.
\<close>

definition remove_child :: "('k, 'v) trie_node list \<Rightarrow> nat \<Rightarrow> ('k, 'v) trie_node list" where
  "remove_child cs i = take i cs @ drop (Suc i) cs"

section \<open>The container\<close>

text \<open>
  \<open>trie::create_end_prefix\<close>: a fresh node with the greatest symbol, marked leaf, is
  appended to the children of \<open>top_\<close> with \<open>push_back\<close>.
\<close>

definition create_end_prefix :: "('k::order_top, 'v) trie \<Rightarrow> ('k, 'v) trie" where
  "create_end_prefix t =
     t\<lparr>top_node := set_children (children (top_node t) @ [Node top None True []]) (top_node t)\<rparr>"

text \<open>The constructor \<open>trie()\<close>.\<close>

definition trie_new :: "('k::{order_top, zero}, 'v) trie" where
  "trie_new = create_end_prefix \<lparr>top_node = Node 0 None False [], size_count = 0\<rparr>"

text \<open>
  The copy constructor \<open>trie_node(const trie_node&)\<close> copies the fields and every child
  in order; \<open>trie(const trie&)\<close> copies \<open>size_\<close> and the tree under \<open>top_\<close>.
\<close>

fun copy_node :: "('k, 'v) trie_node \<Rightarrow> ('k, 'v) trie_node" where
  "copy_node (Node s v l cs) = Node s v l (map copy_node cs)"

definition trie_copy :: "('k, 'v) trie \<Rightarrow> ('k, 'v) trie" where
  "trie_copy oth = \<lparr>top_node = copy_node (top_node oth), size_count = size_count oth\<rparr>"

text \<open>
  \<open>end()\<close> is the pointer \<open>top_->children_.back()\<close>; \<open>empty()\<close> tests
  \<open>top_->children_.size() == 1\<close>.  On an empty vector \<open>back()\<close> is undefined; the model
  then yields a pointer that names no node.
\<close>

definition trie_end :: "('k, 'v) trie \<Rightarrow> node_ptr" where
  "trie_end t = [length (children (top_node t)) - 1]"

definition trie_empty :: "('k, 'v) trie \<Rightarrow> bool" where
  "trie_empty t = (length (children (top_node t)) = 1)"

text \<open>\<open>begin()\<close>: from \<open>top_\<close>, \<open>children_.front()\<close> while the node has children.\<close>

fun begin_walk :: "('k, 'v) trie_node \<Rightarrow> node_ptr" where
  "begin_walk (Node s v l []) = []"
| "begin_walk (Node s v l (c # cs)) = 0 # begin_walk c"

definition trie_begin :: "('k, 'v) trie \<Rightarrow> node_ptr" where
  "trie_begin t = (if trie_empty t then trie_end t else begin_walk (top_node t))"

subsection \<open>insert\<close>

text \<open>
  The second loop of \<open>insert\<close>, at \<open>node\<close> with the symbols from \<open>str_iter\<close> on: one
  new non-leaf child per symbol, pushed into \<open>node\<close>; the last node reached gets the
  leaf flag and the value.  The result is the new subtree at \<open>node\<close> and the pointer of
  the last node, relative to \<open>node\<close>.  (The code pushes the child before it descends
  into it; where \<open>push_child\<close> puts it depends on its symbol only.)
\<close>

fun append_suffix ::
  "('k::linorder, 'v) trie_node \<Rightarrow> 'k key_string \<Rightarrow> 'v \<Rightarrow> ('k, 'v) trie_node \<times> node_ptr"
where
  "append_suffix node [] v = (set_data_second (Some v) (set_is_leaf True node), [])"
| "append_suffix node (c # cs) v =
     (case append_suffix (Node c None False []) cs v of (new_child, p) \<Rightarrow>
        (case push_child (children node) new_child of (chs, i) \<Rightarrow>
           (set_children chs node, i # p)))"

text \<open>
  The first loop of \<open>insert\<close>: \<open>node\<close> is the node matched so far and the list is
  the key from \<open>str_iter\<close> on.  At the end of the key the node is promoted, or the key
  exists already; a symbol with no child leaves the loop for \<open>append_suffix\<close>.  The
  first step, at \<open>top_\<close>, is written before the loop in the code and does the same
  search.
\<close>

fun insert_walk ::
  "('k::linorder, 'v) trie_node \<Rightarrow> 'k key_string \<Rightarrow> 'v \<Rightarrow> error + ('k, 'v) trie_node \<times> node_ptr"
where
  "insert_walk node [] v =
     (if \<not> is_leaf node
      then Inr (set_is_leaf True (set_data_second (Some v) node), [])
      else Inl DuplicateKey)"
| "insert_walk node (c # cs) v =
     (case find_by_key (children node) c of
        None \<Rightarrow> Inr (append_suffix node (c # cs) v)
      | Some i \<Rightarrow>
          (case insert_walk (children node ! i) cs v of
             Inl e \<Rightarrow> Inl e
           | Inr (child, p) \<Rightarrow> Inr (set_children ((children node)[i := child]) node, i # p)))"

text \<open>
  \<open>trie::insert\<close>.  The result is what the call returns or throws, and the container
  after the call.
\<close>

definition trie_insert ::
  "('k::linorder, 'v) trie \<Rightarrow> 'k key_string \<times> 'v \<Rightarrow> (error + node_ptr) \<times> ('k, 'v) trie"
where
  "trie_insert t data =
     (if fst data = [] then (Inl EmptyKey, t)
      else (case insert_walk (top_node t) (fst data) (snd data) of
              Inl e \<Rightarrow> (Inl e, t)
            | Inr (new_top, p) \<Rightarrow> (Inr p, \<lparr>top_node = new_top, size_count = size_count t + 1\<rparr>)))"

subsection \<open>find\<close>

text \<open>
  The loop of \<open>trie::find\<close> at \<open>node\<close> with the key from \<open>key_iter\<close> on; \<open>None\<close> is
  \<open>return end()\<close>.
\<close>

fun find_walk :: "('k::linorder, 'v) trie_node \<Rightarrow> 'k key_string \<Rightarrow> node_ptr option" where
  "find_walk node [] = None"
| "find_walk node (c # cs) =
     (case find_by_key (children node) c of
        None \<Rightarrow> None
      | Some i \<Rightarrow>
          if is_leaf (children node ! i) \<and> cs = [] then Some [i]
          else map_option ((#) i) (find_walk (children node ! i) cs))"

definition trie_find :: "('k::linorder, 'v) trie \<Rightarrow> 'k key_string \<Rightarrow> node_ptr" where
  "trie_find t key = (case find_walk (top_node t) key of None \<Rightarrow> trie_end t | Some p \<Rightarrow> p)"

subsection \<open>erase\<close>

text \<open>
  \<open>size_\<close> is a \<open>size_t\<close>: \<open>--size_\<close> at 0 wraps to \<open>SIZE_MAX\<close> (64 bits).  \<open>++size_\<close> cannot
  wrap, since every counted entry is an allocated node.
\<close>

definition dec_size :: "nat \<Rightarrow> nat" where
  "dec_size n = (if n = 0 then 2 ^ 64 - 1 else n - 1)"

text \<open>
  The climb of \<open>erase\<close>: \<open>node = node->parent_\<close> while the parent is not a leaf and has
  at most one child.  The condition reads \<open>node->parent_->is_leaf_\<close> first, so at
  \<open>top_\<close> (whose \<open>parent_\<close> is null) it dereferences a null pointer; the test
  \<open>node->parent_ != nullptr\<close> comes last and is true whenever it is reached.
\<close>

function erase_climb :: "('k, 'v) trie_node \<Rightarrow> node_ptr \<Rightarrow> error + node_ptr" where
  "erase_climb tp node =
     (if node = [] then Inl UndefinedBehaviour
      else (case node_at tp (butlast node) of
              None \<Rightarrow> Inl UndefinedBehaviour
            | Some parent \<Rightarrow>
                if \<not> is_leaf parent \<and> length (children parent) \<le> 1
                then erase_climb tp (butlast node)
                else Inr node))"
  by pat_completeness auto
termination
  by (relation "measure (\<lambda>(tp, node). length node)") auto

declare erase_climb.simps [simp del]

text \<open>\<open>trie::erase\<close>, on the node the iterator points to.\<close>

definition trie_erase :: "('k, 'v) trie \<Rightarrow> node_ptr \<Rightarrow> (error + unit) \<times> ('k, 'v) trie" where
  "trie_erase t iter =
     (case node_at (top_node t) iter of
        None \<Rightarrow> (Inl UndefinedBehaviour, t)
      | Some n \<Rightarrow>
          if children n \<noteq> []
          then (Inr (), \<lparr>top_node = update_at (set_is_leaf False) iter (top_node t),
                         size_count = dec_size (size_count t)\<rparr>)
          else (case erase_climb (top_node t) iter of
                  Inl e \<Rightarrow> (Inl e, t)
                | Inr node \<Rightarrow>
                    (Inr (), \<lparr>top_node = update_at (\<lambda>parent. set_children
                                          (remove_child (children parent) (last node)) parent)
                                        (butlast node) (top_node t),
                              size_count = dec_size (size_count t)\<rparr>)))"

subsection \<open>clear\<close>

text \<open>
  \<open>trie::clear\<close>: the children of \<open>top_\<close> are deleted and the vector is cleared, the
  sentinel is installed again, and \<open>size_\<close> is 0.
\<close>

definition trie_clear :: "('k::order_top, 'v) trie \<Rightarrow> ('k, 'v) trie" where
  "trie_clear t = (create_end_prefix (t\<lparr>top_node := set_children [] (top_node t)\<rparr>))\<lparr>size_count := 0\<rparr>"

section \<open>The iterator\<close>

text \<open>
  A \<open>search_iterator\<close> holds the pointer \<open>node_\<close>, written \<open>self\<close> here.  Its methods
  read (and \<open>advance\<close> writes) the tree of the container it came from, which is an
  argument here.
\<close>

definition iter_value :: "('k, 'v) trie \<Rightarrow> node_ptr \<Rightarrow> error + 'v option" where
  "iter_value t self =
     (case node_at (top_node t) self of
        None \<Rightarrow> Inl UndefinedBehaviour
      | Some n \<Rightarrow> Inr (data_second n))"

text \<open>
  \<open>search_iterator::key\<close>: the symbols on the way to the node whose \<open>parent_\<close> is null,
  each put in front of \<open>key_str\<close>.
\<close>

function key_loop ::
  "('k, 'v) trie_node \<Rightarrow> node_ptr \<Rightarrow> 'k key_string \<Rightarrow> error + 'k key_string"
where
  "key_loop tp node key_str =
     (if node = [] then Inr key_str
      else (case node_at tp node of
              None \<Rightarrow> Inl UndefinedBehaviour
            | Some n \<Rightarrow> key_loop tp (butlast node) (data_first n # key_str)))"
  by pat_completeness auto
termination
  by (relation "measure (\<lambda>(tp, node, k). length node)") auto

declare key_loop.simps [simp del]

definition iter_key :: "('k, 'v) trie \<Rightarrow> node_ptr \<Rightarrow> error + 'k key_string" where
  "iter_key t self = key_loop (top_node t) self []"

text \<open>
  \<open>search_iterator::advance\<close>.  The loop follows \<open>sub_key\<close> down from \<open>node\<close>; \<open>None\<close>
  is the throw of "No such prefix".  The three writes come after the loop.  The
  result is what the call returns or throws, the container and the iterator after
  the call.
\<close>

fun advance_walk :: "('k::linorder, 'v) trie_node \<Rightarrow> 'k key_string \<Rightarrow> node_ptr option" where
  "advance_walk node [] = Some []"
| "advance_walk node (c # cs) =
     (case find_by_key (children node) c of
        None \<Rightarrow> None
      | Some i \<Rightarrow> map_option ((#) i) (advance_walk (children node ! i) cs))"

definition iter_advance ::
  "('k::linorder, 'v) trie \<Rightarrow> node_ptr \<Rightarrow> 'k key_string
     \<Rightarrow> (error + unit) \<times> ('k, 'v) trie \<times> node_ptr"
where
  "iter_advance t self sub_key =
     (if sub_key = [] then (Inl EmptySubkey, t, self)
      else (case node_at (top_node t) self of
              None \<Rightarrow> (Inl UndefinedBehaviour, t, self)
            | Some n \<Rightarrow>
                (case advance_walk n sub_key of
                   None \<Rightarrow> (Inl NoSuchPrefix, t, self)
                 | Some p \<Rightarrow>
                     (Inr (),
                      t\<lparr>top_node := update_at (set_is_leaf True) (self @ p)
                                      (update_at (set_is_leaf False) self (top_node t))\<rparr>,
                      self @ p))))"

subsection \<open>operator++\<close>

text \<open>
  The first loop of \<open>operator++\<close> ends with \<open>return\<close> at a leaf other than the start,
  or with \<open>break\<close> at the next sibling of the node or of an ancestor.
\<close>

datatype climb = Return node_ptr | Break node_ptr

function incr_climb ::
  "('k::linorder, 'v) trie_node \<Rightarrow> node_ptr \<Rightarrow> node_ptr \<Rightarrow> error + climb"
where
  "incr_climb tp self node =
     (case node_at tp node of
        None \<Rightarrow> Inl UndefinedBehaviour
      | Some n \<Rightarrow>
          if is_leaf n \<and> node \<noteq> self then Inr (Return node)
          else if node = [] then Inl UndefinedBehaviour
          else (case node_at tp (butlast node) of
                  None \<Rightarrow> Inl UndefinedBehaviour
                | Some parent \<Rightarrow>
                    if length (children parent) > 1
                    then (case find_by_key (children parent) (data_first n) of
                            None \<Rightarrow> Inl UndefinedBehaviour
                          | Some i \<Rightarrow>
                              if Suc i = length (children parent)
                              then incr_climb tp self (butlast node)
                              else Inr (Break (butlast node @ [Suc i])))
                    else incr_climb tp self (butlast node)))"
  by pat_completeness auto
termination
  by (relation "measure (\<lambda>(tp, self, node). length node)") auto

declare incr_climb.simps [simp del]

text \<open>
  The second loop: \<open>children_.front()\<close> until a leaf without children.  \<open>n\<close> is the
  node at the pointer \<open>node\<close>.
\<close>

fun incr_descend :: "node_ptr \<Rightarrow> ('k, 'v) trie_node \<Rightarrow> error + node_ptr" where
  "incr_descend node (Node s v l []) = (if l then Inr node else Inl UndefinedBehaviour)"
| "incr_descend node (Node s v l (c # cs)) = incr_descend (node @ [0]) c"

definition incr_target :: "('k::{linorder, order_top}, 'v) trie \<Rightarrow> node_ptr \<Rightarrow> error + node_ptr" where
  "incr_target t self =
     (case node_at (top_node t) self of
        None \<Rightarrow> Inl UndefinedBehaviour
      | Some n \<Rightarrow>
          if data_first n = top then Inl IncrementEnd
          else (case incr_climb (top_node t) self self of
                  Inl e \<Rightarrow> Inl e
                | Inr (Return node) \<Rightarrow> Inr node
                | Inr (Break node) \<Rightarrow>
                    (case node_at (top_node t) node of
                       None \<Rightarrow> Inl UndefinedBehaviour
                     | Some m \<Rightarrow> incr_descend node m)))"

text \<open>
  \<open>operator++\<close>: the iterator is assigned only where the code returns
  (\<open>return *this = search_iterator(node)\<close>).  The result is what the call returns or
  throws, and the iterator after the call.
\<close>

definition iter_incr ::
  "('k::{linorder, order_top}, 'v) trie \<Rightarrow> node_ptr \<Rightarrow> (error + node_ptr) \<times> node_ptr"
where
  "iter_incr t self =
     (case incr_target t self of Inl e \<Rightarrow> (Inl e, self) | Inr node \<Rightarrow> (Inr node, node))"

subsection \<open>operator--\<close>

text \<open>
  The two "shift down" loops: \<open>children_.back()\<close> until a leaf other than the start.
  \<open>n\<close> is the node at the pointer \<open>node\<close>.
\<close>

function decr_descend ::
  "node_ptr \<Rightarrow> node_ptr \<Rightarrow> ('k, 'v) trie_node \<Rightarrow> error + node_ptr"
where
  "decr_descend self node n =
     (if is_leaf n \<and> node \<noteq> self then Inr node
      else if children n = [] then Inl UndefinedBehaviour
      else decr_descend self (node @ [length (children n) - 1]) (last (children n)))"
  by pat_completeness auto
termination
proof (relation "measure (\<lambda>(self, node, n). size n)")
  show "wf (measure (\<lambda>(self, node, n). size n))"
    by simp
next
  fix self node :: node_ptr and n :: "('k, 'v) trie_node"
  assume "children n \<noteq> []"
  then have "last (children n) \<in> set (children n)"
    by simp
  then have "size (last (children n)) < Suc (size_list size (children n))"
    by (simp add: less_Suc_eq_le size_list_estimation')
  then show "((self, node @ [length (children n) - 1], last (children n)), self, node, n)
      \<in> measure (\<lambda>(self, node, n). size n)"
    by (cases n) simp
qed

declare decr_descend.simps [simp del]

text \<open>
  The "shift left" loop: the throw at \<open>top_\<close>, else the previous sibling of the node or
  of an ancestor.  When \<open>find_by_key\<close> returns \<open>end()\<close>, \<open>--prev_child\<close> is the last
  child.
\<close>

function decr_climb :: "('k::linorder, 'v) trie_node \<Rightarrow> node_ptr \<Rightarrow> error + node_ptr" where
  "decr_climb tp node =
     (if node = [] then Inl DecrementBegin
      else (case node_at tp node of
              None \<Rightarrow> Inl UndefinedBehaviour
            | Some n \<Rightarrow>
                (case node_at tp (butlast node) of
                   None \<Rightarrow> Inl UndefinedBehaviour
                 | Some parent \<Rightarrow>
                     if length (children parent) > 1
                     then (case find_by_key (children parent) (data_first n) of
                             Some 0 \<Rightarrow> decr_climb tp (butlast node)
                           | Some (Suc i) \<Rightarrow> Inr (butlast node @ [i])
                           | None \<Rightarrow> Inr (butlast node @ [length (children parent) - 1]))
                     else decr_climb tp (butlast node))))"
  by pat_completeness auto
termination
  by (relation "measure (\<lambda>(tp, node). length node)") auto

declare decr_climb.simps [simp del]

definition decr_target :: "('k::linorder, 'v) trie \<Rightarrow> node_ptr \<Rightarrow> error + node_ptr" where
  "decr_target t self =
     (case node_at (top_node t) self of
        None \<Rightarrow> Inl UndefinedBehaviour
      | Some n \<Rightarrow>
          if children n \<noteq> [] then decr_descend self self n
          else (case decr_climb (top_node t) self of
                  Inl e \<Rightarrow> Inl e
                | Inr node \<Rightarrow>
                    (case node_at (top_node t) node of
                       None \<Rightarrow> Inl UndefinedBehaviour
                     | Some m \<Rightarrow> decr_descend self node m)))"

definition iter_decr ::
  "('k::linorder, 'v) trie \<Rightarrow> node_ptr \<Rightarrow> (error + node_ptr) \<times> node_ptr"
where
  "iter_decr t self =
     (case decr_target t self of Inl e \<Rightarrow> (Inl e, self) | Inr node \<Rightarrow> (Inr node, node))"

section \<open>Loops over the iterator\<close>

text \<open>
  \<open>trie::find_longest_prefix\<close>.  The \<open>for\<close> loop runs while \<open>iter != end()\<close>; nothing
  in its text bounds the number of rounds, so the loop is a partial function and
  \<open>None\<close> stands for a loop that never ends.
\<close>

partial_function (option) longest_loop ::
  "('k::{linorder, order_top}, 'v) trie \<Rightarrow> node_ptr \<Rightarrow> nat \<Rightarrow> node_ptr \<Rightarrow> (error + node_ptr) option"
where
  "longest_loop t iter max_length long_iter =
     (if iter = trie_end t then Some (Inr long_iter)
      else (case iter_key t iter of
              Inl e \<Rightarrow> Some (Inl e)
            | Inr k \<Rightarrow>
                (case iter_incr t iter of
                   (Inl e, _) \<Rightarrow> Some (Inl e)
                 | (Inr _, iter') \<Rightarrow>
                     if length k > max_length then longest_loop t iter' (length k) iter
                     else longest_loop t iter' max_length long_iter)))"

definition find_longest_prefix ::
  "('k::{linorder, order_top}, 'v) trie \<Rightarrow> (error + node_ptr) option"
where
  "find_longest_prefix t = longest_loop t (trie_begin t) 0 (trie_end t)"

text \<open>
  The traversals of a client: \<open>for (it = begin(); it != end(); ++it)\<close> collecting
  \<open>it.key()\<close>, and \<open>for (it = end(); it != begin(); )\<close> collecting \<open>(--it).key()\<close>.
\<close>

partial_function (option) forward_loop ::
  "('k::{linorder, order_top}, 'v) trie \<Rightarrow> node_ptr \<Rightarrow> 'k key_string list
     \<Rightarrow> (error + 'k key_string list) option"
where
  "forward_loop t iter visited =
     (if iter = trie_end t then Some (Inr visited)
      else (case iter_key t iter of
              Inl e \<Rightarrow> Some (Inl e)
            | Inr k \<Rightarrow>
                (case iter_incr t iter of
                   (Inl e, _) \<Rightarrow> Some (Inl e)
                 | (Inr _, iter') \<Rightarrow> forward_loop t iter' (visited @ [k]))))"

definition forward_keys ::
  "('k::{linorder, order_top}, 'v) trie \<Rightarrow> (error + 'k key_string list) option"
where
  "forward_keys t = forward_loop t (trie_begin t) []"

partial_function (option) backward_loop ::
  "('k::linorder, 'v) trie \<Rightarrow> node_ptr \<Rightarrow> 'k key_string list
     \<Rightarrow> (error + 'k key_string list) option"
where
  "backward_loop t iter visited =
     (if iter = trie_begin t then Some (Inr visited)
      else (case iter_decr t iter of
              (Inl e, _) \<Rightarrow> Some (Inl e)
            | (Inr _, iter') \<Rightarrow>
                (case iter_key t iter' of
                   Inl e \<Rightarrow> Some (Inl e)
                 | Inr k \<Rightarrow> backward_loop t iter' (visited @ [k]))))"

definition backward_keys :: "('k::linorder, 'v) trie \<Rightarrow> (error + 'k key_string list) option" where
  "backward_keys t = backward_loop t (trie_end t) []"

section \<open>Reachable containers\<close>

text \<open>
  The calls that change a container.  \<open>Assign\<close> is a write through the reference that
  the non-const \<open>value()\<close> returns.
\<close>

datatype ('k, 'v) operation =
  Insert "'k key_string" 'v
  | Erase node_ptr
  | Clear
  | Copy
  | Advance node_ptr "'k key_string"
  | Assign node_ptr 'v

fun run :: "('k::{linorder, order_top}, 'v) operation \<Rightarrow> ('k, 'v) trie \<Rightarrow> (error + unit) \<times> ('k, 'v) trie" where
  "run (Insert k v) t =
     (case trie_insert t (k, v) of (Inl e, t') \<Rightarrow> (Inl e, t') | (Inr _, t') \<Rightarrow> (Inr (), t'))"
| "run (Erase iter) t = trie_erase t iter"
| "run Clear t = (Inr (), trie_clear t)"
| "run Copy t = (Inr (), trie_copy t)"
| "run (Advance iter sub_key) t = (case iter_advance t iter sub_key of (r, t', _) \<Rightarrow> (r, t'))"
| "run (Assign iter v) t =
     (case node_at (top_node t) iter of
        None \<Rightarrow> (Inl UndefinedBehaviour, t)
      | Some _ \<Rightarrow> (Inr (), t\<lparr>top_node := update_at (set_data_second (Some v)) iter (top_node t)\<rparr>))"

text \<open>
  An iterator is at a stored entry when its node is a leaf and it is not \<open>end()\<close>.
  A key is valid when none of its symbols is the greatest symbol, which the
  container reserves for the node of \<open>end()\<close>.
\<close>

definition at_entry :: "('k, 'v) trie \<Rightarrow> node_ptr \<Rightarrow> bool" where
  "at_entry t iter =
     (iter \<noteq> trie_end t \<and>
      (case node_at (top_node t) iter of None \<Rightarrow> False | Some n \<Rightarrow> is_leaf n))"

definition valid_key :: "('k::order_top) key_string \<Rightarrow> bool" where
  "valid_key k = list_all (\<lambda>c. c \<noteq> top) k"

text \<open>
  The calls a client may make: keys are valid, and \<open>erase\<close>, \<open>advance\<close> and \<open>value()\<close>
  are called on an iterator at a stored entry.
\<close>

fun legal :: "('k::{linorder, order_top}, 'v) trie \<Rightarrow> ('k, 'v) operation \<Rightarrow> bool" where
  "legal t (Insert k v) = valid_key k"
| "legal t (Erase iter) = at_entry t iter"
| "legal t Clear = True"
| "legal t Copy = True"
| "legal t (Advance iter sub_key) = at_entry t iter"
| "legal t (Assign iter v) = at_entry t iter"

text \<open>
  The containers that a sequence of successful calls from \<open>L\<close> builds from \<open>trie()\<close>.
  (A call that throws returns the container it was given.)
\<close>

inductive reachable_by ::
  "(('k::{linorder, order_top, zero}, 'v) trie \<Rightarrow> ('k, 'v) operation \<Rightarrow> bool) \<Rightarrow> ('k, 'v) trie \<Rightarrow> bool"
  for L
where
  reach_new: "reachable_by L trie_new"
| reach_step: "reachable_by L t \<Longrightarrow> L t op \<Longrightarrow> run op t = (Inr (), t') \<Longrightarrow> reachable_by L t'"

definition reachable :: "('k::{linorder, order_top, zero}, 'v) trie \<Rightarrow> bool" where
  "reachable t = reachable_by legal t"

section \<open>Notions of the specification\<close>

text \<open>
  "The children list of every node is strictly sorted in ascending order of symbol
  with no duplicate symbols."
\<close>

fun sorted_node :: "('k::linorder, 'v) trie_node \<Rightarrow> bool" where
  "sorted_node (Node s v l cs) =
     (sorted_wrt (<) (map data_first cs) \<and> list_all sorted_node cs)"

text \<open>
  The pointers of all nodes whose leaf flag is set, children before their parent and
  the children in the order of the vector (post-order).  \<open>leaf_list i cs\<close> lists them
  for the children \<open>cs\<close>, which stand at the indices \<open>i\<close>, \<open>i + 1\<close>, ... of their parent.
\<close>

fun leaf_ptrs :: "('k, 'v) trie_node \<Rightarrow> node_ptr list"
  and leaf_list :: "nat \<Rightarrow> ('k, 'v) trie_node list \<Rightarrow> node_ptr list"
where
  "leaf_ptrs (Node s v l cs) = leaf_list 0 cs @ (if l then [[]] else [])"
| "leaf_list i [] = []"
| "leaf_list i (c # cs) = map ((#) i) (leaf_ptrs c) @ leaf_list (Suc i) cs"

text \<open>The number of nodes under \<open>n\<close>, \<open>n\<close> included, whose leaf flag is set.\<close>

definition leaf_count :: "('k, 'v) trie_node \<Rightarrow> nat" where
  "leaf_count n = length (leaf_ptrs n)"

text \<open>
  The stored entries: the nodes whose leaf flag is set, but for the node of \<open>end()\<close>.
  "\<open>size()\<close> equals the number of nodes whose leaf flag is set, excluding the
  sentinel" is \<open>size_count t = entry_count t\<close>.
\<close>

definition entries :: "('k, 'v) trie \<Rightarrow> node_ptr list" where
  "entries t = filter (\<lambda>p. p \<noteq> trie_end t) (leaf_ptrs (top_node t))"

definition entry_count :: "('k, 'v) trie \<Rightarrow> nat" where
  "entry_count t = length (entries t)"

text \<open>
  "Following the symbols of a key from the root": at each node the child that
  carries the next symbol, found by looking at the children one by one.
\<close>

fun child_index :: "'k \<Rightarrow> ('k, 'v) trie_node list \<Rightarrow> nat option" where
  "child_index c [] = None"
| "child_index c (n # ns) =
     (if data_first n = c then Some 0 else map_option Suc (child_index c ns))"

fun spec_walk :: "('k, 'v) trie_node \<Rightarrow> 'k key_string \<Rightarrow> node_ptr option" where
  "spec_walk n [] = Some []"
| "spec_walk n (c # cs) =
     (case child_index c (children n) of
        None \<Rightarrow> None
      | Some i \<Rightarrow> map_option ((#) i) (spec_walk (children n ! i) cs))"

text \<open>A key is stored when \<open>find\<close> does not return \<open>end()\<close>.\<close>

definition stored :: "('k::linorder, 'v) trie \<Rightarrow> 'k key_string \<Rightarrow> bool" where
  "stored t k = (trie_find t k \<noteq> trie_end t)"

text \<open>
  The order in which the iterator visits keys: symbol by symbol as the lexicographic
  order does, but a key comes after every key that it is a proper prefix of.
\<close>

fun visited_before :: "('k::linorder) key_string \<Rightarrow> 'k key_string \<Rightarrow> bool" where
  "visited_before [] k' = False"
| "visited_before (a # k) [] = True"
| "visited_before (a # k) (b # k') = (a < b \<or> (a = b \<and> visited_before k k'))"

text \<open>The strict lexicographic order on keys.\<close>

definition lex_less :: "('k::linorder) key_string \<Rightarrow> 'k key_string \<Rightarrow> bool" where
  "lex_less k k' = ((k, k') \<in> lexord {(a, b). a < b})"

text \<open>
  An advance merges two entries when the node it lands on has its leaf flag set
  already.
\<close>

fun merging :: "('k::linorder, 'v) trie \<Rightarrow> ('k, 'v) operation \<Rightarrow> bool" where
  "merging t (Advance iter sub_key) =
     (case node_at (top_node t) iter of
        None \<Rightarrow> False
      | Some n \<Rightarrow>
          (case advance_walk n sub_key of
             None \<Rightarrow> False
           | Some p \<Rightarrow> (case node_at n p of None \<Rightarrow> False | Some m \<Rightarrow> is_leaf m)))"
| "merging t _ = False"

definition legal_unmerged ::
  "('k::{linorder, order_top}, 'v) trie \<Rightarrow> ('k, 'v) operation \<Rightarrow> bool"
where
  "legal_unmerged t op = (legal t op \<and> \<not> merging t op)"

section \<open>The shape of a reachable tree\<close>

text \<open>
  The node of \<open>end()\<close> (the sentinel): the greatest symbol, the leaf flag, no
  children.  Every other node below \<open>top_\<close> carries a smaller symbol, and is a leaf
  or has children.
\<close>

definition is_sentinel :: "('k::order_top, 'v) trie_node \<Rightarrow> bool" where
  "is_sentinel n = (data_first n = top \<and> is_leaf n \<and> children n = [])"

fun inner_ok :: "('k::order_top, 'v) trie_node \<Rightarrow> bool" where
  "inner_ok (Node s v l cs) = (s \<noteq> top \<and> (l \<or> cs \<noteq> []) \<and> list_all inner_ok cs)"

text \<open>A node without children is a leaf, here and everywhere below.\<close>

fun leafy :: "('k, 'v) trie_node \<Rightarrow> bool" where
  "leafy (Node s v l cs) = ((l \<or> cs \<noteq> []) \<and> list_all leafy cs)"

definition well_formed :: "('k::{linorder, order_top}, 'v) trie \<Rightarrow> bool" where
  "well_formed t =
     (\<not> is_leaf (top_node t) \<and> sorted_node (top_node t) \<and> children (top_node t) \<noteq> [] \<and>
      is_sentinel (last (children (top_node t))) \<and>
      list_all inner_ok (butlast (children (top_node t))))"

text \<open>The pointer names a node whose leaf flag is set.\<close>

definition leaf_at :: "('k, 'v) trie_node \<Rightarrow> node_ptr \<Rightarrow> bool" where
  "leaf_at n p = (case node_at n p of None \<Rightarrow> False | Some m \<Rightarrow> is_leaf m)"

text \<open>
  The key of the node at a pointer, read from \<open>top_\<close> downwards, and the leaf
  pointers after and before a pointer in the order of \<open>leaf_ptrs\<close>; \<open>ptrs_left\<close>
  leaves out those below the pointer itself.
\<close>

fun key_path :: "('k, 'v) trie_node \<Rightarrow> node_ptr \<Rightarrow> 'k key_string" where
  "key_path n [] = []"
| "key_path n (i # p) = data_first (children n ! i) # key_path (children n ! i) p"

fun ptrs_after :: "('k, 'v) trie_node \<Rightarrow> node_ptr \<Rightarrow> node_ptr list" where
  "ptrs_after n [] = []"
| "ptrs_after n (i # p) =
     map ((#) i) (ptrs_after (children n ! i) p) @ leaf_list (Suc i) (drop (Suc i) (children n))
     @ (if is_leaf n then [[]] else [])"

fun ptrs_left :: "('k, 'v) trie_node \<Rightarrow> node_ptr \<Rightarrow> node_ptr list" where
  "ptrs_left n [] = []"
| "ptrs_left n (i # p) =
     leaf_list 0 (take i (children n)) @ map ((#) i) (ptrs_left (children n ! i) p)"

fun ptrs_before :: "('k, 'v) trie_node \<Rightarrow> node_ptr \<Rightarrow> node_ptr list" where
  "ptrs_before n [] = leaf_list 0 (children n)"
| "ptrs_before n (i # p) =
     leaf_list 0 (take i (children n)) @ map ((#) i) (ptrs_before (children n ! i) p)"

text \<open>The keys of the nodes under \<open>n\<close> whose leaf flag is set, in the order of \<open>leaf_ptrs\<close>.\<close>

definition leaf_keys :: "('k, 'v) trie_node \<Rightarrow> 'k key_string list" where
  "leaf_keys n = map (key_path n) (leaf_ptrs n)"

text \<open>
  The stored value at a pointer, and the keys with their values for the nodes under
  \<open>n\<close> whose leaf flag is set, in the order of \<open>leaf_ptrs\<close>.  \<open>child_bindings c\<close> are
  those of a child, as its parent sees them: each key begins with the symbol of \<open>c\<close>.
\<close>

definition value_at :: "('k, 'v) trie_node \<Rightarrow> node_ptr \<Rightarrow> 'v option" where
  "value_at n p = (case node_at n p of None \<Rightarrow> None | Some m \<Rightarrow> data_second m)"

definition bindings :: "('k, 'v) trie_node \<Rightarrow> ('k key_string \<times> 'v option) list" where
  "bindings n = map (\<lambda>p. (key_path n p, value_at n p)) (leaf_ptrs n)"

definition child_bindings :: "('k, 'v) trie_node \<Rightarrow> ('k key_string \<times> 'v option) list" where
  "child_bindings c = map (\<lambda>(k, v). (data_first c # k, v)) (bindings c)"

text \<open>
  What \<open>erase\<close> does to the subtree \<open>n\<close> when the node at the pointer has no
  children, read from \<open>n\<close> downwards: \<open>None\<close> when the climb passes \<open>n\<close>, so that \<open>n\<close>
  is part of the branch to detach.
\<close>

fun prune :: "('k, 'v) trie_node \<Rightarrow> node_ptr \<Rightarrow> ('k, 'v) trie_node option" where
  "prune n [] = None"
| "prune n (i # p) =
     (case prune (children n ! i) p of
        Some c \<Rightarrow> Some (set_children ((children n)[i := c]) n)
      | None \<Rightarrow>
          if \<not> is_leaf n \<and> length (children n) \<le> 1 then None
          else Some (set_children (remove_child (children n) i) n))"

section \<open>Example containers\<close>

text \<open>
  Symbols of 8 bits (the greatest is 255) and values of type \<open>nat\<close>.  \<open>example_one\<close> is
  the container after \<open>insert({1}, 10)\<close>, \<open>example_two\<close> after \<open>insert({1, 2}, 20)\<close> as
  well.  The equations below let the simplifier run the loops and compare with the
  greatest symbol.
\<close>

declare top_word_eq [code]
declare longest_loop.simps [code] forward_loop.simps [code] backward_loop.simps [code]

definition example_one :: "(8 word, nat) trie" where
  "example_one =
     \<lparr>top_node = Node 0 None False [Node 1 (Some 10) True [], Node 255 None True []],
      size_count = 1\<rparr>"

definition example_two :: "(8 word, nat) trie" where
  "example_two =
     \<lparr>top_node = Node 0 None False
        [Node 1 (Some 10) True [Node 2 (Some 20) True []], Node 255 None True []],
      size_count = 2\<rparr>"

text \<open>\<open>example_tie\<close> is \<open>example_two\<close> after \<open>insert({1, 3}, 30)\<close>.\<close>

definition example_tie :: "(8 word, nat) trie" where
  "example_tie =
     \<lparr>top_node = Node 0 None False
        [Node 1 (Some 10) True [Node 2 (Some 20) True [], Node 3 (Some 30) True []],
         Node 255 None True []],
      size_count = 3\<rparr>"

text \<open>
  \<open>example_merged\<close> is \<open>example_two\<close> after \<open>advance({2})\<close> on the iterator at the
  key \<open>{1}\<close>.
\<close>

definition example_merged :: "(8 word, nat) trie" where
  "example_merged =
     \<lparr>top_node = Node 0 None False
        [Node 1 (Some 10) False [Node 2 (Some 20) True []], Node 255 None True []],
      size_count = 2\<rparr>"

section \<open>Lemmas\<close>

lemma set_is_leaf_sel [simp]:
  "data_first (set_is_leaf b n) = data_first n"
  "data_second (set_is_leaf b n) = data_second n"
  "is_leaf (set_is_leaf b n) = b"
  "children (set_is_leaf b n) = children n"
  by (cases n; simp)+

lemma set_children_sel [simp]:
  "data_first (set_children cs n) = data_first n"
  "data_second (set_children cs n) = data_second n"
  "is_leaf (set_children cs n) = is_leaf n"
  "children (set_children cs n) = cs"
  by (cases n; simp)+

lemma set_data_second_sel [simp]:
  "data_first (set_data_second v n) = data_first n"
  "data_second (set_data_second v n) = v"
  "is_leaf (set_data_second v n) = is_leaf n"
  "children (set_data_second v n) = children n"
  by (cases n; simp)+

lemma set_children_same [simp]: "set_children (children n) n = n"
  by (cases n) simp

lemma sorted_node_iff:
  "sorted_node n \<longleftrightarrow> sorted_wrt (<) (map data_first (children n)) \<and> list_all sorted_node (children n)"
  by (cases n) simp

lemma inner_ok_iff:
  "inner_ok n \<longleftrightarrow> data_first n \<noteq> top \<and> (is_leaf n \<or> children n \<noteq> []) \<and> list_all inner_ok (children n)"
  by (cases n) simp

lemma leaf_ptrs_eq:
  "leaf_ptrs n = leaf_list 0 (children n) @ (if is_leaf n then [[]] else [])"
  by (cases n) simp

subsection \<open>Binary search\<close>

lemma bsearch_Some:
  "bsearch cs k l r = Some i \<Longrightarrow> l \<le> i \<and> i < r \<and> data_first (cs ! i) = k"
proof (induction cs k l r rule: bsearch.induct)
  case (1 cs k l r)
  from "1.prems" show ?case
    by (subst (asm) bsearch.simps) (auto split: if_splits dest: "1.IH")
qed

lemma sorted_syms_less:
  "sorted_wrt (<) (map data_first cs) \<Longrightarrow> i < j \<Longrightarrow> j < length cs
    \<Longrightarrow> data_first (cs ! i) < data_first (cs ! j)"
  by (auto simp: sorted_wrt_iff_nth_less)

lemma sorted_syms_inj:
  assumes "sorted_wrt (<) (map data_first (cs :: ('k::linorder, 'v) trie_node list))"
    and "i < length cs" and "j < length cs" and "data_first (cs ! i) = data_first (cs ! j)"
  shows "i = j"
proof (rule ccontr)
  assume "i \<noteq> j"
  then consider "i < j" | "j < i" by linarith
  then show False
    using assms sorted_syms_less [of cs i j] sorted_syms_less [of cs j i] by cases auto
qed

lemma bsearch_complete:
  "sorted_wrt (<) (map data_first cs) \<Longrightarrow> r \<le> length cs \<Longrightarrow> l \<le> i \<Longrightarrow> i < r
    \<Longrightarrow> data_first (cs ! i) = k \<Longrightarrow> bsearch cs k l r = Some i"
proof (induction cs k l r rule: bsearch.induct)
  case (1 cs k l r)
  let ?mid = "l + (r - l) div 2"
  have mid: "l \<le> ?mid" "?mid < r" "?mid < length cs"
    using "1.prems" by auto
  show ?case
  proof (cases "data_first (cs ! ?mid) = k")
    case True
    then have "?mid = i"
      using sorted_syms_inj [of cs ?mid i] "1.prems" mid by auto
    then show ?thesis
      using True "1.prems" by (subst bsearch.simps) auto
  next
    case False
    show ?thesis
    proof (cases "k < data_first (cs ! ?mid)")
      case True
      have "i < ?mid"
      proof (rule ccontr)
        assume "\<not> i < ?mid"
        then have "?mid < i" using False "1.prems" by (cases "?mid = i") auto
        then show False
          using sorted_syms_less [of cs ?mid i] "1.prems" True by auto
      qed
      then have "bsearch cs k l ?mid = Some i"
        using "1.IH"(1) "1.prems" False True mid by auto
      then show ?thesis
        using False True "1.prems" by (subst bsearch.simps) auto
    next
      case nless: False
      have "?mid < i"
      proof (rule ccontr)
        assume "\<not> ?mid < i"
        then have "i < ?mid" using False "1.prems" by (cases "?mid = i") auto
        then show False
          using sorted_syms_less [of cs i ?mid] "1.prems" nless False mid by auto
      qed
      then have "bsearch cs k (?mid + 1) r = Some i"
        using "1.IH"(2) "1.prems" False nless mid by auto
      then show ?thesis
        using False nless "1.prems" by (subst bsearch.simps) auto
    qed
  qed
qed

lemma find_by_key_SomeD:
  "find_by_key cs k = Some i \<Longrightarrow> i < length cs \<and> data_first (cs ! i) = k"
  unfolding find_by_key_def by (drule bsearch_Some) simp

lemma find_by_key_iff:
  "sorted_wrt (<) (map data_first cs)
    \<Longrightarrow> find_by_key cs k = Some i \<longleftrightarrow> i < length cs \<and> data_first (cs ! i) = k"
  using find_by_key_SomeD [of cs k i] bsearch_complete [of cs "length cs" 0 i k]
  by (auto simp: find_by_key_def)

lemma find_by_key_None_iff:
  assumes "sorted_wrt (<) (map data_first cs)"
  shows "find_by_key cs k = None \<longleftrightarrow> k \<notin> data_first ` set cs"
proof
  assume none: "find_by_key cs k = None"
  show "k \<notin> data_first ` set cs"
  proof
    assume "k \<in> data_first ` set cs"
    then obtain i where "i < length cs" "data_first (cs ! i) = k"
      by (auto simp: in_set_conv_nth)
    then show False using find_by_key_iff [OF assms, of k i] none by simp
  qed
next
  assume "k \<notin> data_first ` set cs"
  then show "find_by_key cs k = None"
    using find_by_key_SomeD [of cs k] by (cases "find_by_key cs k") auto
qed

lemma find_by_key_nth:
  "sorted_wrt (<) (map data_first cs) \<Longrightarrow> i < length cs
    \<Longrightarrow> find_by_key cs (data_first (cs ! i)) = Some i"
  by (simp add: find_by_key_iff)

lemma child_index_SomeD:
  "child_index k cs = Some i \<Longrightarrow> i < length cs \<and> data_first (cs ! i) = k"
  by (induction cs arbitrary: i) (auto split: if_splits)

lemma child_index_None_iff: "child_index k cs = None \<longleftrightarrow> k \<notin> data_first ` set cs"
  by (induction cs) auto

lemma child_index_find_by_key:
  assumes "sorted_wrt (<) (map data_first cs)"
  shows "child_index k cs = find_by_key cs k"
proof (cases "child_index k cs")
  case None
  then show ?thesis
    using find_by_key_None_iff [OF assms, of k] by (simp add: child_index_None_iff)
next
  case (Some i)
  then show ?thesis
    using child_index_SomeD [OF Some] find_by_key_iff [OF assms, of k i] by simp
qed

subsection \<open>push_child\<close>

lemma bubble_split:
  "\<exists>xs ys. ns = xs @ ys \<and> bubble c ns = (xs @ c # ys, length ys) \<and>
     (\<forall>x\<in>set xs. \<not> data_first x < data_first c) \<and>
     (ys \<noteq> [] \<longrightarrow> data_first (hd ys) < data_first c)"
proof (induction ns)
  case Nil
  show ?case by simp
next
  case (Cons n ns)
  show ?case
  proof (cases "data_first n < data_first c")
    case True
    then show ?thesis
      by (intro exI [of _ "[]"] exI [of _ "n # ns"]) simp
  next
    case False
    from Cons.IH obtain xs ys where *: "ns = xs @ ys" "bubble c ns = (xs @ c # ys, length ys)"
      "\<forall>x\<in>set xs. \<not> data_first x < data_first c"
      "ys \<noteq> [] \<longrightarrow> data_first (hd ys) < data_first c"
      by blast
    with False show ?thesis
      by (intro exI [of _ "n # xs"] exI [of _ ys]) simp
  qed
qed

lemma push_child_split:
  "\<exists>as bs. cs = as @ bs \<and> push_child cs c = (as @ c # bs, length as) \<and>
     (\<forall>b\<in>set bs. \<not> data_first b < data_first c) \<and>
     (as \<noteq> [] \<longrightarrow> data_first (last as) < data_first c)"
proof -
  obtain xs ys where *: "rev cs = xs @ ys" "bubble c (rev cs) = (xs @ c # ys, length ys)"
      "\<forall>x\<in>set xs. \<not> data_first x < data_first c"
      "ys \<noteq> [] \<longrightarrow> data_first (hd ys) < data_first c"
    using bubble_split [of "rev cs" c] by blast
  have "cs = rev ys @ rev xs"
    using *(1) by (metis rev_append rev_rev_ident)
  moreover have "push_child cs c = (rev ys @ c # rev xs, length (rev ys))"
    by (simp add: push_child_def *(2))
  moreover have "rev ys \<noteq> [] \<longrightarrow> data_first (last (rev ys)) < data_first c"
    using *(4) by (simp add: last_rev)
  ultimately show ?thesis
    using *(3) by (intro exI [of _ "rev ys"] exI [of _ "rev xs"]) simp
qed

lemma push_child_sorted:
  assumes "sorted_wrt (<) (map data_first cs)" and "data_first c \<notin> data_first ` set cs"
  shows "\<exists>as bs. cs = as @ bs \<and> push_child cs c = (as @ c # bs, length as) \<and>
     sorted_wrt (<) (map data_first (as @ c # bs))"
proof -
  obtain as bs where *: "cs = as @ bs" "push_child cs c = (as @ c # bs, length as)"
      "\<forall>b\<in>set bs. \<not> data_first b < data_first c"
      "as \<noteq> [] \<longrightarrow> data_first (last as) < data_first c"
    using push_child_split [of cs c] by blast
  have bs: "\<forall>b\<in>set bs. data_first c < data_first b"
    using *(1,3) assms(2) by (auto simp: not_less le_less)
  have as: "\<forall>a\<in>set as. data_first a < data_first c"
  proof
    fix a assume a: "a \<in> set as"
    then have ne: "as \<noteq> []" by auto
    have "sorted_wrt (<) (map data_first as)"
      using assms(1) *(1) by (simp add: sorted_wrt_append)
    moreover have "as = butlast as @ [last as]"
      using ne by simp
    ultimately have "sorted_wrt (<) (map data_first (butlast as @ [last as]))"
      by metis
    then have "\<forall>x\<in>set (butlast as). data_first x < data_first (last as)"
      by (auto simp: sorted_wrt_append)
    moreover have "a \<in> set (butlast as) \<or> a = last as"
      using a ne by (metis Un_iff append_butlast_last_id empty_iff empty_set set_ConsD set_append)
    ultimately have "data_first a \<le> data_first (last as)"
      by auto
    then show "data_first a < data_first c"
      using *(4) ne by auto
  qed
  have "sorted_wrt (<) (map data_first (as @ c # bs))"
    using assms(1) *(1) as bs by (auto simp: sorted_wrt_append)
  then show ?thesis using * by blast
qed

subsection \<open>Reading and writing through pointers\<close>

lemma node_at_append:
  "node_at n (p @ q) = (case node_at n p of None \<Rightarrow> None | Some m \<Rightarrow> node_at m q)"
  by (induction p arbitrary: n) auto

lemma node_at_snoc:
  "node_at n (p @ [i]) =
     (case node_at n p of None \<Rightarrow> None
      | Some m \<Rightarrow> if i < length (children m) then Some (children m ! i) else None)"
  by (simp add: node_at_append split: option.splits)

lemma update_at_data_first:
  "(\<And>m. data_first (f m) = data_first m) \<Longrightarrow> data_first (update_at f p n) = data_first n"
  by (cases p) auto

lemma update_at_length_children:
  "(\<And>m. length (children (f m)) = length (children m))
    \<Longrightarrow> length (children (update_at f p n)) = length (children n)"
  by (cases p) auto

lemma node_at_update_at:
  "node_at n p = Some m \<Longrightarrow> node_at (update_at f p n) p = Some (f m)"
  by (induction p arbitrary: n) (auto split: if_splits)

lemma update_at_append:
  "node_at n p = Some m \<Longrightarrow> update_at f (p @ q) n = update_at (update_at f q) p n"
  by (induction p arbitrary: n) (auto split: if_splits)

subsection \<open>Sorted children are preserved\<close>

lemma list_all_update:
  "list_all P xs \<Longrightarrow> P x \<Longrightarrow> list_all P (xs[i := x])"
  by (auto simp: list_all_iff dest: set_update_subset_insert [THEN subsetD])

lemma map_data_first_update:
  "data_first c = data_first (cs ! i) \<Longrightarrow> map data_first (cs[i := c]) = map data_first cs"
proof (cases "i < length cs")
  case True
  assume "data_first c = data_first (cs ! i)"
  then have "(map data_first cs)[i := data_first c] = map data_first cs"
    using True by (simp add: list_update_same_conv)
  then show ?thesis by (simp add: map_update)
next
  case False
  then show ?thesis by (simp add: list_update_beyond)
qed

lemma sorted_node_update_at:
  assumes "\<And>m. data_first (f m) = data_first m" and "\<And>m. sorted_node m \<Longrightarrow> sorted_node (f m)"
  shows "sorted_node n \<Longrightarrow> sorted_node (update_at f p n)"
proof (induction p arbitrary: n)
  case Nil
  then show ?case by (simp add: assms)
next
  case (Cons i p)
  show ?case
  proof (cases "i < length (children n)")
    case True
    have c: "sorted_node (children n ! i)"
      using Cons.prems True by (auto simp: sorted_node_iff [of n] list_all_length)
    have "data_first (update_at f p (children n ! i)) = data_first (children n ! i)"
      by (rule update_at_data_first) (rule assms)
    then have "map data_first ((children n)[i := update_at f p (children n ! i)])
        = map data_first (children n)"
      by (rule map_data_first_update)
    moreover have "list_all sorted_node ((children n)[i := update_at f p (children n ! i)])"
      using Cons.prems Cons.IH [OF c] by (auto simp: sorted_node_iff [of n] intro: list_all_update)
    ultimately show ?thesis
      using Cons.prems True by (simp add: sorted_node_iff [of n] sorted_node_iff [of "set_children _ _"])
  next
    case False
    then show ?thesis using Cons.prems by simp
  qed
qed

lemma sorted_node_set_is_leaf: "sorted_node m \<Longrightarrow> sorted_node (set_is_leaf b m)"
  by (cases m) simp

lemma sorted_node_set_data_second: "sorted_node m \<Longrightarrow> sorted_node (set_data_second v m)"
  by (cases m) simp

lemma sorted_wrt_remove_child:
  "sorted_wrt P (map f cs) \<Longrightarrow> sorted_wrt P (map f (remove_child cs i))"
proof (cases "i < length cs")
  case True
  assume "sorted_wrt P (map f cs)"
  then have "sorted_wrt P (map f (take i cs @ cs ! i # drop (Suc i) cs))"
    using True by (simp add: id_take_nth_drop [symmetric])
  then show ?thesis
    by (auto simp: remove_child_def sorted_wrt_append)
next
  case False
  then show "sorted_wrt P (map f cs) \<Longrightarrow> ?thesis"
    by (simp add: remove_child_def)
qed

lemma set_remove_child: "set (remove_child cs i) \<subseteq> set cs"
  by (auto simp: remove_child_def dest: in_set_takeD in_set_dropD)

lemma sorted_node_remove_child:
  "sorted_node m \<Longrightarrow> sorted_node (set_children (remove_child (children m) i) m)"
  using set_remove_child [of "children m" i]
  by (auto simp: sorted_node_iff [of m] sorted_node_iff [of "set_children _ _"]
      sorted_wrt_remove_child list_all_iff)

lemma append_suffix_sorted:
  "sorted_node n \<Longrightarrow> (k \<noteq> [] \<Longrightarrow> hd k \<notin> data_first ` set (children n))
    \<Longrightarrow> sorted_node (fst (append_suffix n k v)) \<and>
        data_first (fst (append_suffix n k v)) = data_first n"
proof (induction k arbitrary: n)
  case Nil
  then show ?case by (cases n) simp
next
  case (Cons c cs)
  obtain new_child p where a: "append_suffix (Node c None False []) cs v = (new_child, p)"
    by (cases "append_suffix (Node c None False []) cs v")
  have nc: "sorted_node new_child" "data_first new_child = c"
    using Cons.IH [of "Node c None False []"] a by auto
  have "sorted_wrt (<) (map data_first (children n))"
    using Cons.prems by (simp add: sorted_node_iff [of n])
  moreover have "data_first new_child \<notin> data_first ` set (children n)"
    using Cons.prems nc by simp
  ultimately obtain as bs where s: "children n = as @ bs"
      "push_child (children n) new_child = (as @ new_child # bs, length as)"
      "sorted_wrt (<) (map data_first (as @ new_child # bs))"
    using push_child_sorted by blast
  have "list_all sorted_node (as @ new_child # bs)"
    using Cons.prems(1) s(1) nc by (simp add: sorted_node_iff [of n])
  then show ?case
    using a s by (simp add: sorted_node_iff [of "set_children _ _"])
qed

lemma insert_walk_sorted:
  "sorted_node n \<Longrightarrow> insert_walk n k v = Inr (n', p)
    \<Longrightarrow> sorted_node n' \<and> data_first n' = data_first n"
proof (induction k arbitrary: n n' p)
  case Nil
  then show ?case
    by (cases n) (auto split: if_splits)
next
  case (Cons c cs)
  have srt: "sorted_wrt (<) (map data_first (children n))"
    using Cons.prems by (simp add: sorted_node_iff [of n])
  show ?case
  proof (cases "find_by_key (children n) c")
    case None
    then have "c \<notin> data_first ` set (children n)"
      using find_by_key_None_iff [OF srt] by simp
    then show ?thesis
      using append_suffix_sorted [of n "c # cs" v] Cons.prems None
      by (auto simp del: append_suffix.simps)
  next
    case (Some i)
    then have i: "i < length (children n)" "data_first (children n ! i) = c"
      using find_by_key_SomeD by blast+
    from Cons.prems Some obtain child q where
      w: "insert_walk (children n ! i) cs v = Inr (child, q)"
      and n': "n' = set_children ((children n)[i := child]) n"
      by (auto split: sum.splits)
    have "sorted_node (children n ! i)"
      using Cons.prems(1) i by (auto simp: sorted_node_iff [of n] list_all_length)
    then have ch: "sorted_node child" "data_first child = data_first (children n ! i)"
      using Cons.IH [OF _ w] by auto
    have "map data_first ((children n)[i := child]) = map data_first (children n)"
      using ch(2) by (rule map_data_first_update)
    moreover have "list_all sorted_node ((children n)[i := child])"
      using Cons.prems(1) ch(1) by (auto simp: sorted_node_iff [of n] intro: list_all_update)
    ultimately show ?thesis
      using srt n' by (simp add: sorted_node_iff [of "set_children _ _"])
  qed
qed

lemma copy_node_id: "copy_node n = n"
  by (induction n) (simp add: map_idI)

lemma trie_copy_id: "trie_copy t = t"
  by (simp add: trie_copy_def copy_node_id)

lemma sorted_trie_insert:
  "sorted_node (top_node t) \<Longrightarrow> sorted_node (top_node (snd (trie_insert t d)))"
  using insert_walk_sorted [of "top_node t" "fst d" "snd d"]
  by (auto simp: trie_insert_def split: sum.splits)

lemma sorted_trie_erase:
  "sorted_node (top_node t) \<Longrightarrow> sorted_node (top_node (snd (trie_erase t iter)))"
  by (auto simp: trie_erase_def split: option.splits sum.splits
      intro!: sorted_node_update_at sorted_node_set_is_leaf sorted_node_remove_child)

lemma sorted_trie_clear: "sorted_node (top_node (trie_clear t))"
  by (simp add: trie_clear_def create_end_prefix_def sorted_node_iff [of "set_children _ _"])

lemma sorted_iter_advance:
  "sorted_node (top_node t) \<Longrightarrow> sorted_node (top_node (fst (snd (iter_advance t iter k))))"
  by (auto simp: iter_advance_def split: option.splits
      intro!: sorted_node_update_at sorted_node_set_is_leaf)

lemma sorted_run:
  "sorted_node (top_node t) \<Longrightarrow> sorted_node (top_node (snd (run op t)))"
proof (cases op)
  case (Insert k v)
  assume "sorted_node (top_node t)"
  then show ?thesis
    using sorted_trie_insert [of t "(k, v)"] Insert
    by (auto split: prod.splits sum.splits)
next
  case (Advance iter k)
  assume "sorted_node (top_node t)"
  then show ?thesis
    using sorted_iter_advance [of t iter k] Advance by (auto split: prod.splits)
next
  case (Assign iter v)
  assume "sorted_node (top_node t)"
  then show ?thesis
    using Assign
    by (auto split: option.splits intro!: sorted_node_update_at sorted_node_set_data_second)
qed (auto simp: sorted_trie_erase sorted_trie_clear trie_copy_id)

subsection \<open>Walking down by symbols\<close>

lemma sorted_node_children:
  "sorted_node n \<Longrightarrow> sorted_wrt (<) (map data_first (children n))"
  by (simp add: sorted_node_iff [of n])

lemma sorted_node_child:
  "sorted_node n \<Longrightarrow> i < length (children n) \<Longrightarrow> sorted_node (children n ! i)"
  by (auto simp: sorted_node_iff [of n] list_all_length)

lemma sorted_node_at:
  "sorted_node n \<Longrightarrow> node_at n p = Some m \<Longrightarrow> sorted_node m"
  by (induction p arbitrary: n) (auto split: if_splits intro: sorted_node_child)

lemma spec_walk_advance_walk:
  "sorted_node n \<Longrightarrow> spec_walk n k = advance_walk n k"
proof (induction k arbitrary: n)
  case Nil
  show ?case by simp
next
  case (Cons c cs)
  have eq: "child_index c (children n) = find_by_key (children n) c"
    using Cons.prems by (intro child_index_find_by_key sorted_node_children)
  show ?case
  proof (cases "find_by_key (children n) c")
    case None
    then show ?thesis by (simp add: eq)
  next
    case (Some i)
    then have "i < length (children n)"
      using find_by_key_SomeD by blast
    then have "spec_walk (children n ! i) cs = advance_walk (children n ! i) cs"
      using Cons.prems by (intro Cons.IH sorted_node_child)
    then show ?thesis by (simp add: eq Some)
  qed
qed

lemma advance_walk_SomeD:
  "advance_walk n k = Some p
    \<Longrightarrow> (\<exists>m. node_at n p = Some m) \<and> key_path n p = k \<and> length p = length k"
proof (induction k arbitrary: n p)
  case Nil
  then show ?case by simp
next
  case (Cons c cs)
  then obtain i q where i: "find_by_key (children n) c = Some i"
    and q: "advance_walk (children n ! i) cs = Some q" and p: "p = i # q"
    by (auto split: option.splits)
  from i have "i < length (children n)" "data_first (children n ! i) = c"
    using find_by_key_SomeD by blast+
  then show ?case
    using Cons.IH [OF q] p by simp
qed

lemma advance_walk_key_path:
  "sorted_node n \<Longrightarrow> node_at n p = Some m \<Longrightarrow> advance_walk n (key_path n p) = Some p"
proof (induction p arbitrary: n)
  case Nil
  show ?case by simp
next
  case (Cons i p)
  then have i: "i < length (children n)" and m: "node_at (children n ! i) p = Some m"
    by (auto split: if_splits)
  have "find_by_key (children n) (data_first (children n ! i)) = Some i"
    using Cons.prems(1) i by (intro find_by_key_nth sorted_node_children)
  moreover have "advance_walk (children n ! i) (key_path (children n ! i) p) = Some p"
    using Cons.prems(1) i m by (intro Cons.IH sorted_node_child)
  ultimately show ?case by simp
qed

text \<open>\<open>find\<close> succeeds exactly where the walk ends at a leaf, for a key that is not empty.\<close>

lemma leaf_at_Nil [simp]: "leaf_at n [] = is_leaf n"
  by (simp add: leaf_at_def)

lemma leaf_at_Cons [simp]:
  "leaf_at n (i # p) = (i < length (children n) \<and> leaf_at (children n ! i) p)"
  by (simp add: leaf_at_def)

lemma find_walk_eq:
  "find_walk n k =
     (if k = [] then None
      else (case advance_walk n k of
              None \<Rightarrow> None
            | Some p \<Rightarrow> if leaf_at n p then Some p else None))"
proof (induction k arbitrary: n)
  case Nil
  show ?case by simp
next
  case (Cons c cs)
  show ?case
  proof (cases "find_by_key (children n) c")
    case None
    then show ?thesis by simp
  next
    case (Some i)
    then have i: "i < length (children n)"
      using find_by_key_SomeD by blast
    show ?thesis
    proof (cases "cs = []")
      case True
      then show ?thesis using Some i by simp
    next
      case False
      then show ?thesis
        using Some i Cons.IH [of "children n ! i"]
        by (auto split: option.splits)
    qed
  qed
qed

subsection \<open>insert\<close>

lemma append_suffix_walk:
  "sorted_node n \<Longrightarrow> (k \<noteq> [] \<Longrightarrow> hd k \<notin> data_first ` set (children n))
    \<Longrightarrow> append_suffix n k v = (n', p)
    \<Longrightarrow> advance_walk n' k = Some p \<and>
        (\<exists>m. node_at n' p = Some m \<and> is_leaf m \<and> data_second m = Some v)"
proof (induction k arbitrary: n n' p)
  case Nil
  then show ?case by auto
next
  case (Cons c cs)
  obtain new_child q where a: "append_suffix (Node c None False []) cs v = (new_child, q)"
    by (cases "append_suffix (Node c None False []) cs v")
  have nc: "sorted_node new_child" "data_first new_child = c"
    using append_suffix_sorted [of "Node c None False []" cs v] a by auto
  have ih: "advance_walk new_child cs = Some q \<and>
        (\<exists>m. node_at new_child q = Some m \<and> is_leaf m \<and> data_second m = Some v)"
    using Cons.IH [OF _ _ a] by simp
  have "sorted_wrt (<) (map data_first (children n))"
    using Cons.prems(1) by (rule sorted_node_children)
  moreover have "data_first new_child \<notin> data_first ` set (children n)"
    using Cons.prems(2) nc by simp
  ultimately obtain as bs where s: "children n = as @ bs"
      "push_child (children n) new_child = (as @ new_child # bs, length as)"
      "sorted_wrt (<) (map data_first (as @ new_child # bs))"
    using push_child_sorted by blast
  have n': "n' = set_children (as @ new_child # bs) n" and p: "p = length as # q"
    using Cons.prems(3) a s(2) by auto
  have "find_by_key (as @ new_child # bs) c = Some (length as)"
    using s(3) nc(2) by (subst find_by_key_iff) auto
  then show ?case
    using ih n' p by simp
qed

lemma insert_walk_walk:
  "sorted_node n \<Longrightarrow> insert_walk n k v = Inr (n', p)
    \<Longrightarrow> advance_walk n' k = Some p \<and>
        (\<exists>m. node_at n' p = Some m \<and> is_leaf m \<and> data_second m = Some v)"
proof (induction k arbitrary: n n' p)
  case Nil
  then show ?case by (auto split: if_splits)
next
  case (Cons c cs)
  have srt: "sorted_wrt (<) (map data_first (children n))"
    using Cons.prems(1) by (rule sorted_node_children)
  show ?case
  proof (cases "find_by_key (children n) c")
    case None
    then have "c \<notin> data_first ` set (children n)"
      using find_by_key_None_iff [OF srt] by simp
    moreover have "append_suffix n (c # cs) v = (n', p)"
      using Cons.prems(2) None by simp
    ultimately show ?thesis
      using append_suffix_walk [of n "c # cs" v n' p] Cons.prems(1) by simp
  next
    case (Some i)
    then have i: "i < length (children n)" "data_first (children n ! i) = c"
      using find_by_key_SomeD by blast+
    from Cons.prems Some obtain child q where
      w: "insert_walk (children n ! i) cs v = Inr (child, q)"
      and n': "n' = set_children ((children n)[i := child]) n" and p: "p = i # q"
      by (auto split: sum.splits)
    have sc: "sorted_node (children n ! i)"
      using Cons.prems(1) i by (intro sorted_node_child)
    have ch: "data_first child = data_first (children n ! i)"
      using insert_walk_sorted [OF sc w] by simp
    have "map data_first ((children n)[i := child]) = map data_first (children n)"
      using ch by (rule map_data_first_update)
    then have "sorted_wrt (<) (map data_first ((children n)[i := child]))"
      using srt by simp
    then have "find_by_key ((children n)[i := child]) c = Some i"
      using i ch by (subst find_by_key_iff) auto
    then show ?thesis
      using Cons.IH [OF sc w] n' p i by simp
  qed
qed

lemma insert_walk_error:
  "insert_walk n k v = Inl e
    \<longleftrightarrow> e = DuplicateKey \<and> (\<exists>p. advance_walk n k = Some p \<and> leaf_at n p)"
proof (induction k arbitrary: n)
  case Nil
  show ?case by auto
next
  case (Cons c cs)
  show ?case
  proof (cases "find_by_key (children n) c")
    case None
    then show ?thesis by (simp del: append_suffix.simps)
  next
    case (Some i)
    then have i: "i < length (children n)"
      using find_by_key_SomeD by blast
    show ?thesis
      using Some i Cons.IH [of "children n ! i"]
      by (auto split: sum.splits)
  qed
qed

lemma trie_insert_error:
  "fst (trie_insert t (k, v)) = Inl e \<longleftrightarrow>
     (k = [] \<and> e = EmptyKey) \<or>
     (k \<noteq> [] \<and> e = DuplicateKey \<and> (\<exists>p. advance_walk (top_node t) k = Some p \<and> leaf_at (top_node t) p))"
  using insert_walk_error [of "top_node t" k v e]
  by (auto simp: trie_insert_def split: sum.splits)

lemma trie_insert_ok:
  assumes "sorted_node (top_node t)" and "trie_insert t (k, v) = (Inr p, t')"
  shows "trie_find t' k = p" and "iter_value t' p = Inr (Some v)"
    and "size_count t' = size_count t + 1"
proof -
  from assms(2) obtain new_top where k: "k \<noteq> []"
    and w: "insert_walk (top_node t) k v = Inr (new_top, p)"
    and t': "t' = \<lparr>top_node = new_top, size_count = size_count t + 1\<rparr>"
    by (auto simp: trie_insert_def split: if_splits sum.splits)
  from insert_walk_walk [OF assms(1) w] obtain m where
    a: "advance_walk new_top k = Some p" and m: "node_at new_top p = Some m" "is_leaf m"
      "data_second m = Some v"
    by blast
  show "trie_find t' k = p"
    using k a m by (simp add: trie_find_def find_walk_eq t' leaf_at_def)
  show "iter_value t' p = Inr (Some v)"
    using m by (simp add: iter_value_def t')
  show "size_count t' = size_count t + 1"
    by (simp add: t')
qed

subsection \<open>The shape of the tree is preserved\<close>

lemma well_formedI:
  "children (top_node t) = cs @ [s] \<Longrightarrow> is_sentinel s \<Longrightarrow> list_all inner_ok cs
    \<Longrightarrow> \<not> is_leaf (top_node t) \<Longrightarrow> sorted_node (top_node t) \<Longrightarrow> well_formed t"
  by (simp add: well_formed_def)

lemma well_formedE:
  assumes "well_formed t"
  obtains cs s where "children (top_node t) = cs @ [s]" "is_sentinel s" "list_all inner_ok cs"
    "\<not> is_leaf (top_node t)" "sorted_node (top_node t)"
proof -
  have "children (top_node t) = butlast (children (top_node t)) @ [last (children (top_node t))]"
    using assms by (simp add: well_formed_def)
  then show thesis
    using assms that [of "butlast (children (top_node t))" "last (children (top_node t))"]
    by (simp add: well_formed_def)
qed

lemma well_formed_new: "well_formed trie_new"
  by (simp add: well_formed_def trie_new_def create_end_prefix_def is_sentinel_def)

lemma well_formed_clear: "well_formed t \<Longrightarrow> well_formed (trie_clear t)"
  by (auto simp: well_formed_def trie_clear_def create_end_prefix_def is_sentinel_def
      sorted_node_iff [of "set_children _ _"])

lemma inner_ok_child:
  "inner_ok n \<Longrightarrow> i < length (children n) \<Longrightarrow> inner_ok (children n ! i)"
  by (auto simp: inner_ok_iff [of n] list_all_length)

lemma inner_ok_at: "inner_ok n \<Longrightarrow> node_at n p = Some m \<Longrightarrow> inner_ok m"
  by (induction p arbitrary: n) (auto split: if_splits intro: inner_ok_child)

lemma inner_ok_update_at:
  "inner_ok n \<Longrightarrow> (\<And>m. node_at n p = Some m \<Longrightarrow> inner_ok (f m)) \<Longrightarrow> inner_ok (update_at f p n)"
proof (induction p arbitrary: n)
  case Nil
  then show ?case by simp
next
  case (Cons i p)
  show ?case
  proof (cases "i < length (children n)")
    case True
    have "inner_ok (update_at f p (children n ! i))"
      using Cons.prems True by (intro Cons.IH inner_ok_child) auto
    then have "list_all inner_ok ((children n)[i := update_at f p (children n ! i)])"
      using Cons.prems(1) by (auto simp: inner_ok_iff [of n] intro: list_all_update)
    then show ?thesis
      using Cons.prems(1) True by (auto simp: inner_ok_iff [of n] inner_ok_iff [of "set_children _ _"])
  next
    case False
    then show ?thesis using Cons.prems by simp
  qed
qed

lemma push_child_sorted_split:
  assumes "sorted_wrt (<) (map data_first cs)" and "data_first c \<notin> data_first ` set cs"
  shows "\<exists>as bs. cs = as @ bs \<and> push_child cs c = (as @ c # bs, length as) \<and>
     sorted_wrt (<) (map data_first (as @ c # bs)) \<and>
     (\<forall>b\<in>set bs. data_first c < data_first b)"
proof -
  obtain as bs where *: "cs = as @ bs" "push_child cs c = (as @ c # bs, length as)"
     "sorted_wrt (<) (map data_first (as @ c # bs))"
    using push_child_sorted [OF assms] by blast
  then have "\<forall>b\<in>set bs. data_first c < data_first b"
    by (auto simp: sorted_wrt_append)
  with * show ?thesis by blast
qed

lemma append_suffix_inner_ok:
  "data_first n \<noteq> top \<Longrightarrow> list_all inner_ok (children n) \<Longrightarrow> valid_key k
    \<Longrightarrow> sorted_node n \<Longrightarrow> (k \<noteq> [] \<Longrightarrow> hd k \<notin> data_first ` set (children n))
    \<Longrightarrow> inner_ok (fst (append_suffix n k v))"
proof (induction k arbitrary: n)
  case Nil
  then show ?case by (simp add: inner_ok_iff [of "set_data_second _ _"])
next
  case (Cons c cs)
  obtain new_child p where a: "append_suffix (Node c None False []) cs v = (new_child, p)"
    by (cases "append_suffix (Node c None False []) cs v")
  have nc: "data_first new_child = c"
    using append_suffix_sorted [of "Node c None False []" cs v] a by simp
  have "sorted_wrt (<) (map data_first (children n))"
    using Cons.prems(4) by (rule sorted_node_children)
  moreover have "data_first new_child \<notin> data_first ` set (children n)"
    using Cons.prems(5) nc by simp
  ultimately obtain as bs where s: "children n = as @ bs"
      "push_child (children n) new_child = (as @ new_child # bs, length as)"
    using push_child_sorted [of "children n" new_child] by blast
  have "inner_ok new_child"
    using Cons.IH [of "Node c None False []"] Cons.prems(3) a by (simp add: valid_key_def)
  then show ?case
    using a s Cons.prems(1,2) by (simp add: inner_ok_iff [of "set_children _ _"])
qed

lemma insert_walk_inner_ok:
  "inner_ok n \<Longrightarrow> sorted_node n \<Longrightarrow> valid_key k \<Longrightarrow> insert_walk n k v = Inr (n', p)
    \<Longrightarrow> inner_ok n'"
proof (induction k arbitrary: n n' p)
  case Nil
  then show ?case
    by (auto simp: inner_ok_iff [of n] inner_ok_iff [of "set_is_leaf _ _"] split: if_splits)
next
  case (Cons c cs)
  have srt: "sorted_wrt (<) (map data_first (children n))"
    using Cons.prems(2) by (rule sorted_node_children)
  show ?case
  proof (cases "find_by_key (children n) c")
    case None
    then have "c \<notin> data_first ` set (children n)"
      using find_by_key_None_iff [OF srt] by simp
    then have "inner_ok (fst (append_suffix n (c # cs) v))"
      using Cons.prems by (intro append_suffix_inner_ok) (auto simp: inner_ok_iff [of n])
    then show ?thesis
      using Cons.prems(4) None by (auto simp del: append_suffix.simps)
  next
    case (Some i)
    then have i: "i < length (children n)"
      using find_by_key_SomeD by blast
    from Cons.prems Some obtain child q where
      w: "insert_walk (children n ! i) cs v = Inr (child, q)"
      and n': "n' = set_children ((children n)[i := child]) n"
      by (auto split: sum.splits)
    have "inner_ok child"
      using Cons.prems i w
      by (intro Cons.IH [OF _ _ _ w] inner_ok_child sorted_node_child) (auto simp: valid_key_def)
    then have "list_all inner_ok ((children n)[i := child])"
      using Cons.prems(1) by (auto simp: inner_ok_iff [of n] intro: list_all_update)
    then show ?thesis
      using Cons.prems(1) i n' by (auto simp: inner_ok_iff [of n] inner_ok_iff [of "set_children _ _"])
  qed
qed

lemma well_formed_insert:
  assumes wf: "well_formed t" and k: "valid_key k" and ins: "trie_insert t (k, v) = (Inr p, t')"
  shows "well_formed t'"
proof -
  from wf obtain cs s where top: "children (top_node t) = cs @ [s]" "is_sentinel s"
      "list_all inner_ok cs" "\<not> is_leaf (top_node t)" "sorted_node (top_node t)"
    by (rule well_formedE)
  from ins obtain new_top where ne: "k \<noteq> []"
    and w: "insert_walk (top_node t) k v = Inr (new_top, p)"
    and t': "t' = \<lparr>top_node = new_top, size_count = size_count t + 1\<rparr>"
    by (auto simp: trie_insert_def split: if_splits sum.splits)
  from ne obtain c k' where kk: "k = c # k'" by (cases k) auto
  have c: "c \<noteq> top" and k': "valid_key k'"
    using k kk by (auto simp: valid_key_def)
  have srt: "sorted_wrt (<) (map data_first (cs @ [s]))"
    using top(1,5) sorted_node_children [of "top_node t"] by simp
  have sorted': "sorted_node new_top"
    using insert_walk_sorted [OF top(5) w] by simp
  show ?thesis
  proof (cases "find_by_key (cs @ [s]) c")
    case None
    then have notin: "c \<notin> data_first ` set (cs @ [s])"
      using find_by_key_None_iff [OF srt] by simp
    obtain new_child q where a: "append_suffix (Node c None False []) k' v = (new_child, q)"
      by (cases "append_suffix (Node c None False []) k' v")
    have nc: "inner_ok new_child" "data_first new_child = c"
      using append_suffix_inner_ok [of "Node c None False []" k' v] k' c
        append_suffix_sorted [of "Node c None False []" k' v] a by auto
    obtain as bs where s: "cs @ [s] = as @ bs"
        "push_child (cs @ [s]) new_child = (as @ new_child # bs, length as)"
        "sorted_wrt (<) (map data_first (as @ new_child # bs))"
        "\<forall>b\<in>set bs. data_first new_child < data_first b"
      using push_child_sorted_split [OF srt, of new_child] notin nc(2) by auto
    have "bs \<noteq> []"
    proof
      assume "bs = []"
      then have "s \<in> set as" using s(1) by (metis append_Nil2 in_set_conv_decomp)
      then have "data_first s < c"
        using s(3) nc(2) by (auto simp: sorted_wrt_append)
      then show False using top(2) by (simp add: is_sentinel_def)
    qed
    then obtain bs' where bs: "bs = bs' @ [s]" "cs = as @ bs'"
      using s(1) by (metis append_butlast_last_id butlast_append butlast_snoc last_appendR last_snoc)
    have "new_top = set_children ((as @ new_child # bs') @ [s]) (top_node t)"
      using w kk None top(1) a s(2) bs by simp
    then show ?thesis
      using top nc(1) bs sorted' by (intro well_formedI [of _ "as @ new_child # bs'" s]) (auto simp: t')
  next
    case (Some i)
    then have "i < length (cs @ [s])" "data_first ((cs @ [s]) ! i) = c"
      using find_by_key_SomeD by blast+
    then have i: "i < length cs"
      using c top(2) by (cases "i = length cs") (auto simp: is_sentinel_def)
    from w kk Some top(1) obtain child q where
      cw: "insert_walk (cs ! i) k' v = Inr (child, q)"
      and nt: "new_top = set_children ((cs @ [s])[i := child]) (top_node t)"
      using i by (auto split: sum.splits simp: nth_append)
    have "sorted_node (cs ! i)"
      using sorted_node_child [OF top(5), of i] i top(1) by (simp add: nth_append)
    then have "inner_ok child"
      using top(3) i k' cw by (intro insert_walk_inner_ok [OF _ _ _ cw]) (auto simp: list_all_length)
    then have "list_all inner_ok (cs[i := child])"
      using top(3) by (intro list_all_update)
    moreover have "new_top = set_children (cs[i := child] @ [s]) (top_node t)"
      using nt i by (simp add: list_update_append1)
    ultimately show ?thesis
      using top sorted' by (intro well_formedI [of _ "cs[i := child]" s]) (auto simp: t')
  qed
qed

text \<open>An iterator at a stored entry points below \<open>top_\<close>, into a child other than the last.\<close>

lemma at_entryD:
  assumes "well_formed t" and "at_entry t iter"
  obtains cs s i r where "children (top_node t) = cs @ [s]" "is_sentinel s"
    "list_all inner_ok cs" "\<not> is_leaf (top_node t)" "sorted_node (top_node t)"
    "iter = i # r" "i < length cs" "leaf_at (cs ! i) r"
proof -
  from assms(1) obtain cs s where top: "children (top_node t) = cs @ [s]" "is_sentinel s"
      "list_all inner_ok cs" "\<not> is_leaf (top_node t)" "sorted_node (top_node t)"
    by (rule well_formedE)
  from assms(2) have ne: "iter \<noteq> [length cs]" and lf: "leaf_at (top_node t) iter"
    by (auto simp: at_entry_def trie_end_def top(1) leaf_at_def)
  from lf top(4) obtain i r where ir: "iter = i # r"
    by (cases iter) auto
  with lf top(1) have i: "i < length cs + 1" and l: "leaf_at ((cs @ [s]) ! i) r"
    by auto
  have "i \<noteq> length cs"
  proof
    assume eq: "i = length cs"
    with l top(2) have "r = []"
      by (cases r) (auto simp: is_sentinel_def)
    with ne ir eq show False by simp
  qed
  with i l have "i < length cs" "leaf_at (cs ! i) r"
    by (auto simp: nth_append)
  then show thesis
    using top ir by (intro that)
qed

lemma well_formed_update_at:
  assumes wf: "well_formed t" and e: "at_entry t iter"
    and f: "\<And>m. data_first (f m) = data_first m" "\<And>m. sorted_node m \<Longrightarrow> sorted_node (f m)"
      "\<And>m. inner_ok m \<Longrightarrow> node_at (top_node t) (iter @ q) = Some m \<Longrightarrow> inner_ok (f m)"
  shows "well_formed (t\<lparr>top_node := update_at f (iter @ q) (top_node t)\<rparr>)"
proof -
  from wf e obtain cs s i r where top: "children (top_node t) = cs @ [s]" "is_sentinel s"
    "list_all inner_ok cs" "\<not> is_leaf (top_node t)" "sorted_node (top_node t)"
    "iter = i # r" "i < length cs" "leaf_at (cs ! i) r"
    by (rule at_entryD)
  have ok: "inner_ok (cs ! i)"
    using top(3,7) by (simp add: list_all_length)
  have "inner_ok (update_at f (r @ q) (cs ! i))"
  proof (rule inner_ok_update_at [OF ok])
    fix m assume m: "node_at (cs ! i) (r @ q) = Some m"
    then have "node_at (top_node t) (iter @ q) = Some m"
      using top(1,6,7) by (simp add: nth_append)
    moreover have "inner_ok m"
      using ok m by (rule inner_ok_at)
    ultimately show "inner_ok (f m)" by (intro f(3))
  qed
  then have "list_all inner_ok (cs[i := update_at f (r @ q) (cs ! i)])"
    using top(3) by (intro list_all_update)
  moreover have "update_at f (iter @ q) (top_node t)
      = set_children (cs[i := update_at f (r @ q) (cs ! i)] @ [s]) (top_node t)"
    using top(1,6,7) by (simp add: nth_append list_update_append1)
  moreover have "sorted_node (update_at f (iter @ q) (top_node t))"
    using top(5) f(1,2) by (intro sorted_node_update_at)
  ultimately show ?thesis
    using top(2,4) by (intro well_formedI [of _ "cs[i := update_at f (r @ q) (cs ! i)]" s]) auto
qed

lemma well_formed_assign:
  "well_formed t \<Longrightarrow> at_entry t iter
    \<Longrightarrow> well_formed (t\<lparr>top_node := update_at (set_data_second v) iter (top_node t)\<rparr>)"
  using well_formed_update_at [of t iter "set_data_second v" "[]"]
  by (auto simp: sorted_node_set_data_second inner_ok_iff [of "set_data_second _ _"] inner_ok_iff)

lemma advance_walk_Cons_children:
  "advance_walk n k = Some p \<Longrightarrow> k \<noteq> [] \<Longrightarrow> p \<noteq> [] \<and> children n \<noteq> []"
  by (cases k) (auto split: option.splits dest: find_by_key_SomeD)

lemma well_formed_advance:
  assumes wf: "well_formed t" and e: "at_entry t iter"
    and adv: "iter_advance t iter k = (Inr (), t', iter')"
  shows "well_formed t'"
proof -
  from adv obtain n p where k: "k \<noteq> []" and n: "node_at (top_node t) iter = Some n"
    and p: "advance_walk n k = Some p"
    and t': "t' = t\<lparr>top_node := update_at (set_is_leaf True) (iter @ p)
                                      (update_at (set_is_leaf False) iter (top_node t))\<rparr>"
    by (auto simp: iter_advance_def split: if_splits option.splits)
  have ch: "children n \<noteq> []" "p \<noteq> []"
    using advance_walk_Cons_children [OF p k] by auto
  let ?t1 = "t\<lparr>top_node := update_at (set_is_leaf False) iter (top_node t)\<rparr>"
  have wf1: "well_formed ?t1"
    using well_formed_update_at [OF wf e, of "set_is_leaf False" "[]"] n ch(1)
    by (auto simp: sorted_node_set_is_leaf inner_ok_iff [of "set_is_leaf _ _"] inner_ok_iff)
  obtain m where m: "node_at n p = Some m"
    using advance_walk_SomeD [OF p] by blast
  from ch(2) obtain j p' where jp: "p = j # p'" by (cases p) auto
  have "node_at (top_node ?t1) iter = Some (set_is_leaf False n)"
    using n by (simp add: node_at_update_at)
  then have m1: "node_at (top_node ?t1) (iter @ p) = Some m"
    using m jp by (auto simp: node_at_append split: if_splits)
  from wf1 obtain cs s where top1: "children (top_node ?t1) = cs @ [s]" "is_sentinel s"
      "list_all inner_ok cs" "\<not> is_leaf (top_node ?t1)" "sorted_node (top_node ?t1)"
    by (rule well_formedE)
  from wf e obtain cs0 s0 i r where top0: "children (top_node t) = cs0 @ [s0]"
      "iter = i # r" "i < length cs0"
    by (rule at_entryD)
  have len: "length (children (top_node ?t1)) = length (children (top_node t))"
    by (simp add: update_at_length_children)
  then have i: "i < length cs"
    using top1(1) top0(1,3) by simp
  have ok: "inner_ok (cs ! i)"
    using top1(3) i by (simp add: list_all_length)
  have mi: "node_at (cs ! i) (r @ p) = Some m"
    using m1 top1(1) top0(2) i by (simp add: nth_append)
  have "inner_ok (update_at (set_is_leaf True) (r @ p) (cs ! i))"
    using ok mi inner_ok_at [OF ok mi]
    by (intro inner_ok_update_at) (auto simp: inner_ok_iff [of "set_is_leaf _ _"] inner_ok_iff [of m])
  then have "list_all inner_ok (cs[i := update_at (set_is_leaf True) (r @ p) (cs ! i)])"
    using top1(3) by (intro list_all_update)
  moreover have "top_node t' = set_children
      (cs[i := update_at (set_is_leaf True) (r @ p) (cs ! i)] @ [s]) (top_node ?t1)"
    using top1(1) top0(2) i by (simp add: t' nth_append list_update_append1)
  moreover have "sorted_node (top_node t')"
    unfolding t' using top1(5)
    by (auto intro!: sorted_node_update_at sorted_node_set_is_leaf)
  ultimately show ?thesis
    using top1(2,4)
    by (intro well_formedI [of _ "cs[i := update_at (set_is_leaf True) (r @ p) (cs ! i)]" s]) auto
qed

subsection \<open>erase: the climb, read from the top\<close>

lemma prune_snoc:
  "node_at n r = Some pm \<Longrightarrow> i < length (children pm) \<Longrightarrow>
     prune n (r @ [i]) =
       (if \<not> is_leaf pm \<and> length (children pm) \<le> 1 then prune n r
        else Some (update_at (\<lambda>parent. set_children (remove_child (children parent) i) parent) r n))"
proof (induction r arbitrary: n)
  case Nil
  then show ?case by simp
next
  case (Cons j r)
  then have j: "j < length (children n)" and pm: "node_at (children n ! j) r = Some pm"
    by (auto split: if_splits)
  show ?case
    using Cons.IH [OF pm Cons.prems(2)] j by simp
qed

lemma erase_climb_not_Nil: "erase_climb tp p = Inr q \<Longrightarrow> q \<noteq> []"
proof (induction p arbitrary: q rule: rev_induct)
  case Nil
  then show ?case by (simp add: erase_climb.simps)
next
  case (snoc i p)
  from snoc.prems show ?case
    by (subst (asm) erase_climb.simps) (auto split: option.splits if_splits dest: snoc.IH)
qed

lemma erase_climb_prune:
  assumes "node_at tp pre = Some n"
  shows "node_at n r = Some m \<Longrightarrow>
     (case erase_climb tp (pre @ r) of
        Inl e \<Rightarrow> None
      | Inr q \<Rightarrow> Some (update_at (\<lambda>parent. set_children (remove_child (children parent) (last q)) parent)
                          (butlast q) tp))
     = (case prune n r of
          Some n' \<Rightarrow> Some (update_at (\<lambda>_. n') pre tp)
        | None \<Rightarrow>
            (case erase_climb tp pre of
               Inl e \<Rightarrow> None
             | Inr q \<Rightarrow> Some (update_at (\<lambda>parent. set_children (remove_child (children parent) (last q)) parent)
                                 (butlast q) tp)))"
proof (induction r arbitrary: m rule: rev_induct)
  case Nil
  show ?case by simp
next
  case (snoc i r)
  from snoc.prems obtain pm where pm: "node_at n r = Some pm" and i: "i < length (children pm)"
    by (auto simp: node_at_snoc split: option.splits if_splits)
  have at: "node_at tp (pre @ r) = Some pm"
    using assms pm by (simp add: node_at_append)
  show ?case
  proof (cases "\<not> is_leaf pm \<and> length (children pm) \<le> 1")
    case True
    have "erase_climb tp (pre @ r @ [i]) = erase_climb tp (pre @ r)"
      using at True by (subst erase_climb.simps) (simp add: butlast_append)
    moreover have "prune n (r @ [i]) = prune n r"
      using prune_snoc [OF pm i] True by simp
    ultimately show ?thesis
      using snoc.IH [OF pm] by simp
  next
    case False
    have "erase_climb tp (pre @ r @ [i]) = Inr (pre @ r @ [i])"
      using at False by (subst erase_climb.simps) (auto simp: butlast_append)
    moreover have "prune n (r @ [i]) =
        Some (update_at (\<lambda>parent. set_children (remove_child (children parent) i) parent) r n)"
      using prune_snoc [OF pm i] False by auto
    moreover have "update_at (\<lambda>parent. set_children (remove_child (children parent) i) parent) (pre @ r) tp
        = update_at (\<lambda>_. update_at (\<lambda>parent. set_children (remove_child (children parent) i) parent) r n) pre tp"
    proof -
      have "update_at (\<lambda>parent. set_children (remove_child (children parent) i) parent) (pre @ r) tp
        = update_at (update_at (\<lambda>parent. set_children (remove_child (children parent) i) parent) r) pre tp"
        using assms by (rule update_at_append)
      also have "\<dots> = update_at (\<lambda>_. update_at (\<lambda>parent. set_children (remove_child (children parent) i) parent) r n) pre tp"
        using assms
      proof (induction pre arbitrary: tp)
        case Nil
        then show ?case by simp
      next
        case (Cons j pre)
        then show ?case by (auto split: if_splits)
      qed
      finally show ?thesis .
    qed
    ultimately show ?thesis
      by (simp add: butlast_append)
  qed
qed

lemma erase_climb_eq_prune:
  assumes "node_at tp iter = Some m"
  shows "(case erase_climb tp iter of
        Inl e \<Rightarrow> None
      | Inr q \<Rightarrow> Some (update_at (\<lambda>parent. set_children (remove_child (children parent) (last q)) parent)
                          (butlast q) tp))
     = prune tp iter"
  using erase_climb_prune [of tp "[]" tp iter m] assms
  by (auto simp: erase_climb.simps [of tp "[]"] split: option.splits)

lemma prune_inner_ok:
  "inner_ok n \<Longrightarrow> node_at n r = Some m \<Longrightarrow> prune n r = Some n' \<Longrightarrow> inner_ok n'"
proof (induction r arbitrary: n n')
  case Nil
  then show ?case by simp
next
  case (Cons i r)
  then have i: "i < length (children n)" and m: "node_at (children n ! i) r = Some m"
    by (auto split: if_splits)
  have ok: "inner_ok (children n ! i)"
    using Cons.prems(1) i by (rule inner_ok_child)
  show ?case
  proof (cases "prune (children n ! i) r")
    case None
    with Cons.prems(3) have c: "is_leaf n \<or> 1 < length (children n)"
      and n': "n' = set_children (remove_child (children n) i) n"
      by (auto split: if_splits)
    have "length (remove_child (children n) i) = length (children n) - 1"
      using i by (simp add: remove_child_def)
    then have "is_leaf n \<or> remove_child (children n) i \<noteq> []"
      using c by auto
    moreover have "list_all inner_ok (remove_child (children n) i)"
      using Cons.prems(1) set_remove_child [of "children n" i]
      by (auto simp: inner_ok_iff [of n] list_all_iff)
    ultimately show ?thesis
      using Cons.prems(1) n' by (auto simp: inner_ok_iff [of n] inner_ok_iff [of "set_children _ _"])
  next
    case (Some c)
    then have "inner_ok c"
      using Cons.IH [OF ok m] by simp
    then have "list_all inner_ok ((children n)[i := c])"
      using Cons.prems(1) by (auto simp: inner_ok_iff [of n] intro: list_all_update)
    moreover have "n' = set_children ((children n)[i := c]) n"
      using Cons.prems(3) Some by simp
    ultimately show ?thesis
      using Cons.prems(1) i by (auto simp: inner_ok_iff [of n] inner_ok_iff [of "set_children _ _"])
  qed
qed

text \<open>
  At \<open>top_\<close> the climb stops: besides the branch of the entry there is the last child.
\<close>

lemma prune_top:
  assumes "children tp = cs @ [s]" and "i < length cs"
  shows "prune tp (i # r) =
     Some (set_children ((case prune (cs ! i) r of
                            Some c \<Rightarrow> cs[i := c]
                          | None \<Rightarrow> take i cs @ drop (Suc i) cs) @ [s]) tp)"
  using assms
  by (auto simp: nth_append list_update_append1 remove_child_def split: option.splits)

lemma well_formed_erase:
  assumes wf: "well_formed t" and e: "at_entry t iter"
  shows "\<exists>t'. trie_erase t iter = (Inr (), t') \<and> well_formed t' \<and>
     size_count t' = dec_size (size_count t)"
proof -
  from wf e obtain cs s i r where top: "children (top_node t) = cs @ [s]" "is_sentinel s"
    "list_all inner_ok cs" "\<not> is_leaf (top_node t)" "sorted_node (top_node t)"
    "iter = i # r" "i < length cs" "leaf_at (cs ! i) r"
    by (rule at_entryD)
  from top(8) obtain m where m: "node_at (cs ! i) r = Some m" "is_leaf m"
    by (auto simp: leaf_at_def split: option.splits)
  have mt: "node_at (top_node t) iter = Some m"
    using m(1) top(1,6,7) by (simp add: nth_append)
  show ?thesis
  proof (cases "children m = []")
    case False
    have "well_formed (t\<lparr>top_node := update_at (set_is_leaf False) (iter @ []) (top_node t)\<rparr>)"
      using mt False
      by (intro well_formed_update_at [OF wf e])
        (auto simp: sorted_node_set_is_leaf inner_ok_iff [of "set_is_leaf _ _"] inner_ok_iff)
    then have "well_formed \<lparr>top_node = update_at (set_is_leaf False) iter (top_node t),
        size_count = dec_size (size_count t)\<rparr>"
      by (simp add: well_formed_def)
    then show ?thesis
      using mt False by (simp add: trie_erase_def)
  next
    case True
    let ?cs' = "case prune (cs ! i) r of Some c \<Rightarrow> cs[i := c]
                | None \<Rightarrow> take i cs @ drop (Suc i) cs"
    let ?top' = "set_children (?cs' @ [s]) (top_node t)"
    have pr: "prune (top_node t) iter = Some ?top'"
      using prune_top [OF top(1,7), of r] top(6) by simp
    from erase_climb_eq_prune [OF mt] pr obtain q where
      q: "erase_climb (top_node t) iter = Inr q"
      and q': "update_at (\<lambda>parent. set_children (remove_child (children parent) (last q)) parent)
                 (butlast q) (top_node t) = ?top'"
      by (auto split: sum.splits)
    let ?t' = "\<lparr>top_node = ?top', size_count = dec_size (size_count t)\<rparr>"
    have er: "trie_erase t iter = (Inr (), ?t')"
      using mt True q q' by (simp add: trie_erase_def)
    have ok: "inner_ok (cs ! i)"
      using top(3,7) by (simp add: list_all_length)
    have "list_all inner_ok ?cs'"
    proof (cases "prune (cs ! i) r")
      case None
      then show ?thesis
        using top(3) by (auto simp: list_all_iff dest: in_set_takeD in_set_dropD)
    next
      case (Some c)
      then show ?thesis
        using top(3) prune_inner_ok [OF ok m(1) Some] by (auto intro: list_all_update)
    qed
    moreover have "sorted_node (top_node (snd (trie_erase t iter)))"
      using top(5) by (rule sorted_trie_erase)
    then have "sorted_node ?top'"
      by (simp add: er)
    ultimately have "well_formed ?t'"
      using top(2,4) by (intro well_formedI [of _ ?cs' s]) auto
    then show ?thesis
      using er by simp
  qed
qed

subsection \<open>Every reachable container is well formed\<close>

lemma well_formed_run:
  assumes "well_formed t" and "legal t op" and "run op t = (Inr (), t')"
  shows "well_formed t'"
proof (cases op)
  case (Insert k v)
  then show ?thesis
    using assms well_formed_insert [of t k v _ t']
    by (auto split: prod.splits sum.splits)
next
  case (Erase iter)
  then show ?thesis
    using assms well_formed_erase [of t iter] by auto
next
  case Clear
  then show ?thesis using assms well_formed_clear by auto
next
  case Copy
  then show ?thesis using assms by (auto simp: trie_copy_id)
next
  case (Advance iter k)
  then show ?thesis
    using assms well_formed_advance [of t iter k t']
    by (auto split: prod.splits)
next
  case (Assign iter v)
  then show ?thesis
    using assms well_formed_assign [of t iter "Some v"]
    by (auto split: option.splits)
qed

lemma reachable_by_well_formed:
  assumes "reachable_by L t" and "\<And>t op. L t op \<Longrightarrow> legal t op"
  shows "well_formed t"
  using assms(1)
proof (induction rule: reachable_by.induct)
  case reach_new
  show ?case by (rule well_formed_new)
next
  case (reach_step t op t')
  then show ?case
    using assms(2) by (intro well_formed_run [of t op t']) auto
qed

lemma reachable_well_formed: "reachable t \<Longrightarrow> well_formed t"
  unfolding reachable_def by (rule reachable_by_well_formed) auto

lemma reachable_example_one: "reachable example_one"
proof -
  have "reachable_by legal (trie_new :: (8 word, nat) trie)"
    by (rule reach_new)
  moreover have "legal (trie_new :: (8 word, nat) trie) (Insert [1] 10)"
    by code_simp
  moreover have "run (Insert [1] 10) (trie_new :: (8 word, nat) trie) = (Inr (), example_one)"
    by code_simp
  ultimately show ?thesis
    unfolding reachable_def by (rule reach_step)
qed

lemma reachable_example_two: "reachable example_two"
proof -
  have "reachable_by legal example_one"
    using reachable_example_one by (simp add: reachable_def)
  moreover have "legal example_one (Insert [1, 2] 20)"
    by code_simp
  moreover have "run (Insert [1, 2] 20) example_one = (Inr (), example_two)"
    by code_simp
  ultimately show ?thesis
    unfolding reachable_def by (rule reach_step)
qed

lemma stored_iff:
  assumes "well_formed t" and "valid_key k"
  shows "stored t k \<longleftrightarrow> k \<noteq> [] \<and> (\<exists>p. advance_walk (top_node t) k = Some p \<and> leaf_at (top_node t) p)"
proof (cases "k = []")
  case True
  then show ?thesis by (simp add: stored_def trie_find_def)
next
  case False
  from assms(1) obtain cs s where top: "children (top_node t) = cs @ [s]" "is_sentinel s"
    by (rule well_formedE)
  have "p \<noteq> trie_end t" if "advance_walk (top_node t) k = Some p" for p
  proof
    assume "p = trie_end t"
    then have "p = [length cs]" by (simp add: trie_end_def top(1))
    then have "k = [data_first s]"
      using advance_walk_SomeD [OF that] top(1) by simp
    then show False
      using assms(2) top(2) by (simp add: valid_key_def is_sentinel_def)
  qed
  then show ?thesis
    using False by (auto simp: stored_def trie_find_def find_walk_eq split: option.splits)
qed

lemma erase_climb_prefix: "erase_climb tp p = Inr q \<Longrightarrow> prefix q p"
proof (induction p arbitrary: q rule: rev_induct)
  case Nil
  then show ?case by (simp add: erase_climb.simps)
next
  case (snoc i p)
  from snoc.prems show ?case
    by (subst (asm) erase_climb.simps) (auto split: option.splits if_splits dest: snoc.IH)
qed

lemma erase_climb_ok:
  assumes "well_formed t" and "at_entry t iter"
  shows "\<exists>q. erase_climb (top_node t) iter = Inr q"
proof -
  from assms obtain cs s i r where top: "children (top_node t) = cs @ [s]"
    "iter = i # r" "i < length cs" "leaf_at (cs ! i) r"
    by (rule at_entryD)
  from top(4) obtain m where "node_at (cs ! i) r = Some m"
    by (auto simp: leaf_at_def split: option.splits)
  then have "node_at (top_node t) iter = Some m"
    using top(1,2,3) by (simp add: nth_append)
  from erase_climb_eq_prune [OF this] prune_top [OF top(1,3), of r] top(2)
  show ?thesis by (auto split: sum.splits)
qed

subsection \<open>Counting leaf flags\<close>

lemma length_leaf_list:
  "length (leaf_list i cs) = sum_list (map leaf_count cs)"
  by (induction cs arbitrary: i) (simp_all add: leaf_count_def)

lemma leaf_count_eq:
  "leaf_count n = sum_list (map leaf_count (children n)) + (if is_leaf n then 1 else 0)"
  by (cases n) (simp add: leaf_count_def length_leaf_list)

lemma sum_leaf_count_update:
  "j < length cs \<Longrightarrow>
     sum_list (map leaf_count (cs[j := c])) + leaf_count (cs ! j)
       = sum_list (map leaf_count cs) + leaf_count c"
proof (induction cs arbitrary: j)
  case Nil
  then show ?case by simp
next
  case (Cons x cs)
  then show ?case by (cases j) auto
qed

lemma sum_leaf_count_remove:
  "j < length cs \<Longrightarrow>
     sum_list (map leaf_count (remove_child cs j)) + leaf_count (cs ! j)
       = sum_list (map leaf_count cs)"
proof -
  assume "j < length cs"
  then have "cs = take j cs @ cs ! j # drop (Suc j) cs"
    by (simp add: id_take_nth_drop [symmetric])
  then have "sum_list (map leaf_count cs)
      = sum_list (map leaf_count (take j cs @ cs ! j # drop (Suc j) cs))"
    by simp
  then show ?thesis
    by (simp add: remove_child_def)
qed

lemma leaf_count_update_at:
  "node_at n p = Some m \<Longrightarrow>
     leaf_count (update_at f p n) + leaf_count m = leaf_count n + leaf_count (f m)"
proof (induction p arbitrary: n)
  case Nil
  then show ?case by simp
next
  case (Cons i p)
  then have i: "i < length (children n)" and m: "node_at (children n ! i) p = Some m"
    by (auto split: if_splits)
  show ?case
    using Cons.IH [OF m] sum_leaf_count_update [OF i, of "update_at f p (children n ! i)"] i
    by (simp add: leaf_count_eq [of n] leaf_count_eq [of "set_children _ _"])
qed

lemma leaf_count_set_is_leaf:
  "leaf_count (set_is_leaf b m) + (if is_leaf m then 1 else 0)
     = leaf_count m + (if b then 1 else 0)"
  by (simp add: leaf_count_eq [of m] leaf_count_eq [of "set_is_leaf _ _"])

lemma leaf_count_set_data_second: "leaf_count (set_data_second v m) = leaf_count m"
  by (simp add: leaf_count_eq [of m] leaf_count_eq [of "set_data_second _ _"])

lemma leaf_count_append_suffix:
  "(k = [] \<Longrightarrow> \<not> is_leaf n) \<Longrightarrow> leaf_count (fst (append_suffix n k v)) = leaf_count n + 1"
proof (induction k arbitrary: n)
  case Nil
  then show ?case
    by (simp add: leaf_count_eq [of n] leaf_count_eq [of "set_data_second _ _"])
next
  case (Cons c cs)
  obtain new_child p where a: "append_suffix (Node c None False []) cs v = (new_child, p)"
    by (cases "append_suffix (Node c None False []) cs v")
  have nc: "leaf_count new_child = 1"
    using Cons.IH [of "Node c None False []"] a by (simp add: leaf_count_eq [of "Node _ _ _ _"])
  obtain as bs where s: "children n = as @ bs"
      "push_child (children n) new_child = (as @ new_child # bs, length as)"
    using push_child_split [of "children n" new_child] by blast
  show ?case
    using a s nc by (simp add: leaf_count_eq [of n] leaf_count_eq [of "set_children _ _"])
qed

lemma leaf_count_insert_walk:
  "insert_walk n k v = Inr (n', p) \<Longrightarrow> leaf_count n' = leaf_count n + 1"
proof (induction k arbitrary: n n' p)
  case Nil
  then show ?case
    by (auto simp: leaf_count_eq [of n] leaf_count_eq [of "set_is_leaf _ _"] split: if_splits)
next
  case (Cons c cs)
  show ?case
  proof (cases "find_by_key (children n) c")
    case None
    then show ?thesis
      using Cons.prems leaf_count_append_suffix [of "c # cs" n v]
      by (auto simp del: append_suffix.simps)
  next
    case (Some i)
    then have i: "i < length (children n)"
      using find_by_key_SomeD by blast
    from Cons.prems Some obtain child q where
      w: "insert_walk (children n ! i) cs v = Inr (child, q)"
      and n': "n' = set_children ((children n)[i := child]) n"
      by (auto split: sum.splits)
    show ?thesis
      using Cons.IH [OF w] sum_leaf_count_update [OF i, of child] n'
      by (simp add: leaf_count_eq [of n] leaf_count_eq [of "set_children _ _"])
  qed
qed

lemma leaf_count_prune:
  "node_at n r = Some m \<Longrightarrow> is_leaf m \<Longrightarrow> children m = [] \<Longrightarrow>
     (case prune n r of None \<Rightarrow> leaf_count n = 1 | Some n' \<Rightarrow> leaf_count n' + 1 = leaf_count n)"
proof (induction r arbitrary: n)
  case Nil
  then show ?case using leaf_count_eq [of n] by simp
next
  case (Cons i r)
  then have i: "i < length (children n)" and m: "node_at (children n ! i) r = Some m"
    by (auto split: if_splits)
  note ih = Cons.IH [OF m Cons.prems(2,3)]
  show ?case
  proof (cases "prune (children n ! i) r")
    case None
    then have one: "leaf_count (children n ! i) = 1"
      using ih by simp
    show ?thesis
    proof (cases "\<not> is_leaf n \<and> length (children n) \<le> 1")
      case True
      then obtain c where c: "children n = [c]"
        using i by (cases "children n") auto
      then have "children n ! i = c"
        using i by simp
      then have "sum_list (map leaf_count (children n)) = leaf_count (children n ! i)"
        using c by simp
      then show ?thesis
        using None True one by (simp add: leaf_count_eq [of n])
    next
      case False
      then show ?thesis
        using None one sum_leaf_count_remove [OF i]
        by (auto simp: leaf_count_eq [of n] leaf_count_eq [of "set_children _ _"])
    qed
  next
    case (Some c)
    then have "leaf_count c + 1 = leaf_count (children n ! i)"
      using ih by simp
    then show ?thesis
      using Some sum_leaf_count_update [OF i, of c]
      by (simp add: leaf_count_eq [of n] leaf_count_eq [of "set_children _ _"])
  qed
qed

subsection \<open>The leaf pointers\<close>

lemma leaf_list_append:
  "leaf_list i (xs @ ys) = leaf_list i xs @ leaf_list (i + length xs) ys"
  by (induction xs arbitrary: i) simp_all

lemma in_leaf_list_iff:
  "p \<in> set (leaf_list i cs) \<longleftrightarrow>
     (\<exists>j q. p = (i + j) # q \<and> j < length cs \<and> q \<in> set (leaf_ptrs (cs ! j)))"
proof (induction cs arbitrary: i)
  case Nil
  show ?case by simp
next
  case (Cons c cs)
  show ?case
  proof
    assume "p \<in> set (leaf_list i (c # cs))"
    then consider q where "p = i # q" "q \<in> set (leaf_ptrs c)" | "p \<in> set (leaf_list (Suc i) cs)"
      by auto
    then show "\<exists>j q. p = (i + j) # q \<and> j < length (c # cs) \<and> q \<in> set (leaf_ptrs ((c # cs) ! j))"
    proof cases
      case 1
      then show ?thesis by (intro exI [of _ 0] exI [of _ q]) simp
    next
      case 2
      then obtain j q where "p = (Suc i + j) # q" "j < length cs" "q \<in> set (leaf_ptrs (cs ! j))"
        using Cons.IH [of "Suc i"] by blast
      then show ?thesis by (intro exI [of _ "Suc j"] exI [of _ q]) simp
    qed
  next
    assume "\<exists>j q. p = (i + j) # q \<and> j < length (c # cs) \<and> q \<in> set (leaf_ptrs ((c # cs) ! j))"
    then obtain j q where *: "p = (i + j) # q" "j < length (c # cs)"
        "q \<in> set (leaf_ptrs ((c # cs) ! j))"
      by blast
    show "p \<in> set (leaf_list i (c # cs))"
    proof (cases j)
      case 0
      with * show ?thesis by simp
    next
      case (Suc j')
      with * have "p \<in> set (leaf_list (Suc i) cs)"
        using Cons.IH [of "Suc i"] by auto
      then show ?thesis by simp
    qed
  qed
qed

lemma in_leaf_ptrs_iff: "p \<in> set (leaf_ptrs n) \<longleftrightarrow> leaf_at n p"
proof (induction p arbitrary: n)
  case Nil
  show ?case
    by (auto simp: leaf_ptrs_eq [of n] in_leaf_list_iff)
next
  case (Cons i p)
  show ?case
    using Cons.IH by (auto simp: leaf_ptrs_eq [of n] in_leaf_list_iff)
qed

lemma distinct_leaf_list:
  "(\<And>c. c \<in> set cs \<Longrightarrow> distinct (leaf_ptrs c)) \<Longrightarrow> distinct (leaf_list i cs)"
proof (induction cs arbitrary: i)
  case Nil
  show ?case by simp
next
  case (Cons c cs)
  have "set (map ((#) i) (leaf_ptrs c)) \<inter> set (leaf_list (Suc i) cs) = {}"
    by (auto simp: in_leaf_list_iff)
  then show ?case
    using Cons by (simp add: distinct_map)
qed

lemma distinct_leaf_ptrs: "distinct (leaf_ptrs n)"
proof (induction n)
  case (Node s v l cs)
  then have "distinct (leaf_list 0 cs)"
    by (intro distinct_leaf_list)
  moreover have "[] \<notin> set (leaf_list 0 cs)"
    by (simp add: in_leaf_list_iff)
  ultimately show ?case by simp
qed

subsection \<open>The entries of a well-formed container\<close>

lemma leaf_ptrs_sentinel: "is_sentinel s \<Longrightarrow> leaf_ptrs s = [[]]"
  by (cases s) (simp add: is_sentinel_def)

lemma well_formed_leaf_ptrs:
  assumes "well_formed t" and "children (top_node t) = cs @ [s]"
  shows "leaf_ptrs (top_node t) = leaf_list 0 cs @ [trie_end t]"
    and "entries t = leaf_list 0 cs"
proof -
  have s: "is_sentinel s" and nl: "\<not> is_leaf (top_node t)"
    using assms by (auto simp: well_formed_def)
  show lp: "leaf_ptrs (top_node t) = leaf_list 0 cs @ [trie_end t]"
    using nl assms(2) leaf_ptrs_sentinel [OF s]
    by (simp add: leaf_ptrs_eq [of "top_node t"] leaf_list_append trie_end_def)
  have "trie_end t \<notin> set (leaf_list 0 cs)"
    by (auto simp: in_leaf_list_iff trie_end_def assms(2))
  then show "entries t = leaf_list 0 cs"
    by (auto simp: entries_def lp filter_id_conv)
qed

lemma well_formed_entry_count:
  assumes "well_formed t"
  shows "entry_count t + 1 = leaf_count (top_node t)"
proof -
  from assms obtain cs s where "children (top_node t) = cs @ [s]"
    by (rule well_formedE)
  from well_formed_leaf_ptrs [OF assms this] show ?thesis
    by (simp add: entry_count_def leaf_count_def)
qed

lemma at_entry_in_entries:
  "at_entry t iter \<longleftrightarrow> iter \<in> set (entries t)"
  by (auto simp: at_entry_def entries_def in_leaf_ptrs_iff leaf_at_def)

subsection \<open>\<open>size_\<close> and the number of entries\<close>

lemma count_run:
  assumes wf: "well_formed t" and l: "legal t op" and r: "run op t = (Inr (), t')"
    and le: "entry_count t \<le> size_count t"
  shows "entry_count t' \<le> size_count t'"
    and "size_count t = entry_count t \<Longrightarrow> (size_count t' = entry_count t' \<longleftrightarrow> \<not> merging t op)"
proof -
  have wf': "well_formed t'"
    using wf l r by (rule well_formed_run)
  note ec = well_formed_entry_count [OF wf] well_formed_entry_count [OF wf']
  have "entry_count t' \<le> size_count t' \<and>
    (size_count t = entry_count t \<longrightarrow> (size_count t' = entry_count t' \<longleftrightarrow> \<not> merging t op))"
  proof (cases op)
    case (Insert k v)
    with r obtain p new_top where w: "insert_walk (top_node t) k v = Inr (new_top, p)"
      and t': "top_node t' = new_top" "size_count t' = size_count t + 1"
      by (auto simp: trie_insert_def split: if_splits sum.splits prod.splits)
    have "entry_count t' = entry_count t + 1"
      using leaf_count_insert_walk [OF w] ec t'(1) by simp
    then show ?thesis
      using le t'(2) Insert by simp
  next
    case (Erase iter)
    with l have e: "at_entry t iter" by simp
    then obtain m where m: "node_at (top_node t) iter = Some m" "is_leaf m"
      by (auto simp: at_entry_def split: option.splits)
    have pos: "0 < entry_count t"
      using e by (auto simp: at_entry_in_entries entry_count_def)
    have sz: "size_count t' = dec_size (size_count t)"
      using well_formed_erase [OF wf e] r Erase by auto
    have "leaf_count (top_node t') + 1 = leaf_count (top_node t)"
    proof (cases "children m = []")
      case True
      from erase_climb_ok [OF wf e] obtain q where q: "erase_climb (top_node t) iter = Inr q"
        by blast
      then have "prune (top_node t) iter = Some (top_node t')"
        using erase_climb_eq_prune [OF m(1)] r Erase m True by (auto simp: trie_erase_def)
      then show ?thesis
        using leaf_count_prune [OF m True] by simp
    next
      case False
      then have "top_node t' = update_at (set_is_leaf False) iter (top_node t)"
        using r Erase m by (auto simp: trie_erase_def)
      then show ?thesis
        using leaf_count_update_at [OF m(1), of "set_is_leaf False"]
          leaf_count_set_is_leaf [of False m] m(2) by simp
    qed
    then have "entry_count t' + 1 = entry_count t"
      using ec by simp
    then show ?thesis
      using le pos sz Erase by (auto simp: dec_size_def)
  next
    case Clear
    with r have t': "t' = trie_clear t" by simp
    then have "leaf_count (top_node t') = 1" "size_count t' = 0"
      using wf
      by (simp_all add: trie_clear_def create_end_prefix_def leaf_count_eq [of "set_children _ _"]
          leaf_count_eq [of "Node _ _ _ _"] well_formed_def)
    then show ?thesis
      using ec Clear by simp
  next
    case Copy
    with r le show ?thesis by (simp add: trie_copy_id)
  next
    case (Advance iter k)
    with l have e: "at_entry t iter" by simp
    from r Advance obtain n p where k: "k \<noteq> []" and n: "node_at (top_node t) iter = Some n"
      and p: "advance_walk n k = Some p"
      and t': "t' = t\<lparr>top_node := update_at (set_is_leaf True) (iter @ p)
                                      (update_at (set_is_leaf False) iter (top_node t))\<rparr>"
      by (auto simp: iter_advance_def split: if_splits option.splits)
    have ln: "is_leaf n"
      using e n by (simp add: at_entry_def)
    obtain m where m: "node_at n p = Some m"
      using advance_walk_SomeD [OF p] by blast
    have "p \<noteq> []"
      using advance_walk_Cons_children [OF p k] by simp
    then obtain j p' where jp: "p = j # p'" by (cases p) auto
    let ?top1 = "update_at (set_is_leaf False) iter (top_node t)"
    have "node_at ?top1 iter = Some (set_is_leaf False n)"
      using n by (simp add: node_at_update_at)
    then have m1: "node_at ?top1 (iter @ p) = Some m"
      using m jp by (auto simp: node_at_append split: if_splits)
    have c1: "leaf_count ?top1 + 1 = leaf_count (top_node t)"
      using leaf_count_update_at [OF n, of "set_is_leaf False"]
        leaf_count_set_is_leaf [of False n] ln by simp
    have c2: "leaf_count (top_node t') + (if is_leaf m then 1 else 0) = leaf_count ?top1 + 1"
      using leaf_count_update_at [OF m1, of "set_is_leaf True"]
        leaf_count_set_is_leaf [of True m] by (simp add: t')
    have mg: "merging t op \<longleftrightarrow> is_leaf m"
      using Advance n p m by simp
    have "size_count t' = size_count t"
      by (simp add: t')
    moreover have "entry_count t' + (if is_leaf m then 1 else 0) = entry_count t"
      using c1 c2 ec by (auto split: if_splits)
    ultimately show ?thesis
      using le mg by (auto split: if_splits)
  next
    case (Assign iter v)
    with l have e: "at_entry t iter" by simp
    then obtain m where m: "node_at (top_node t) iter = Some m"
      by (auto simp: at_entry_def split: option.splits)
    have t': "t' = t\<lparr>top_node := update_at (set_data_second (Some v)) iter (top_node t)\<rparr>"
      using r Assign m by simp
    have "leaf_count (top_node t') = leaf_count (top_node t)"
      using leaf_count_update_at [OF m, of "set_data_second (Some v)"]
      by (simp add: t' leaf_count_set_data_second)
    then have "entry_count t' = entry_count t"
      using ec by simp
    moreover have "size_count t' = size_count t"
      by (simp add: t')
    ultimately show ?thesis
      using le Assign by simp
  qed
  then show "entry_count t' \<le> size_count t'"
    and "size_count t = entry_count t \<Longrightarrow> (size_count t' = entry_count t' \<longleftrightarrow> \<not> merging t op)"
    by auto
qed

lemma entry_count_new: "entry_count (trie_new :: ('k::{linorder, order_top, zero}, 'v) trie) = 0"
proof -
  have "entry_count (trie_new :: ('k, 'v) trie) + 1 = leaf_count (top_node (trie_new :: ('k, 'v) trie))"
    using well_formed_new by (rule well_formed_entry_count)
  then show ?thesis
    by (simp add: trie_new_def create_end_prefix_def leaf_count_eq [of "Node _ _ _ _"])
qed

lemma size_count_new: "size_count trie_new = 0"
  by (simp add: trie_new_def create_end_prefix_def)

lemma reachable_entry_count_le: "reachable t \<Longrightarrow> entry_count t \<le> size_count t"
  unfolding reachable_def
proof (induction rule: reachable_by.induct)
  case reach_new
  show ?case by (simp add: entry_count_new size_count_new)
next
  case (reach_step t op t')
  have "well_formed t"
    using reach_step.hyps(1) by (intro reachable_well_formed) (simp add: reachable_def)
  then show ?case
    using reach_step by (intro count_run(1) [of t op t'])
qed

lemma reachable_by_mono:
  "reachable_by L t \<Longrightarrow> (\<And>t op. L t op \<Longrightarrow> L' t op) \<Longrightarrow> reachable_by L' t"
proof (induction rule: reachable_by.induct)
  case reach_new
  show ?case by (rule reachable_by.reach_new)
next
  case (reach_step t op t')
  then show ?case by (intro reachable_by.reach_step [of L' t op t']) auto
qed

lemma unmerged_reachable: "reachable_by legal_unmerged t \<Longrightarrow> reachable t"
  unfolding reachable_def by (erule reachable_by_mono) (simp add: legal_unmerged_def)

lemma unmerged_size:
  "reachable_by legal_unmerged t \<Longrightarrow> size_count t = entry_count t"
proof (induction rule: reachable_by.induct)
  case reach_new
  show ?case by (simp add: entry_count_new size_count_new)
next
  case (reach_step t op t')
  have r: "reachable t"
    using reach_step.hyps(1) by (rule unmerged_reachable)
  then have "well_formed t" by (rule reachable_well_formed)
  then show ?case
    using reach_step count_run(2) [of t op t'] by (simp add: legal_unmerged_def)
qed

subsection \<open>The order of the leaf pointers around a pointer\<close>

lemma leaf_list_split:
  assumes "i < length cs"
  shows "leaf_list 0 cs =
     leaf_list 0 (take i cs) @ map ((#) i) (leaf_ptrs (cs ! i)) @ leaf_list (Suc i) (drop (Suc i) cs)"
proof -
  have "cs = take i cs @ cs ! i # drop (Suc i) cs"
    using assms by (simp add: id_take_nth_drop [symmetric])
  then have "leaf_list 0 cs = leaf_list 0 (take i cs @ cs ! i # drop (Suc i) cs)"
    by simp
  also have "\<dots> = leaf_list 0 (take i cs) @ leaf_list i (cs ! i # drop (Suc i) cs)"
    using assms by (simp add: leaf_list_append min_def)
  finally show ?thesis by simp
qed

lemma leaf_ptrs_decompose:
  "leaf_at n p \<Longrightarrow> leaf_ptrs n = ptrs_before n p @ p # ptrs_after n p"
proof (induction p arbitrary: n)
  case Nil
  then show ?case by (simp add: leaf_ptrs_eq [of n])
next
  case (Cons i p)
  then have i: "i < length (children n)" and l: "leaf_at (children n ! i) p"
    by auto
  show ?case
    using Cons.IH [OF l] leaf_list_split [OF i]
    by (simp add: leaf_ptrs_eq [of n])
qed

lemma map_append_Nil [simp]: "map ((@) []) xs = xs"
  by (induction xs) auto

lemma ptrs_before_left:
  "node_at n p = Some m \<Longrightarrow>
     ptrs_before n p = ptrs_left n p @ map ((@) p) (leaf_list 0 (children m))"
proof (induction p arbitrary: n)
  case Nil
  then show ?case by simp
next
  case (Cons i p)
  then have m: "node_at (children n ! i) p = Some m"
    by (auto split: if_splits)
  show ?case
    using Cons.IH [OF m] by simp
qed

lemma ptrs_after_snoc:
  "node_at n q = Some m \<Longrightarrow> i < length (children m) \<Longrightarrow>
     ptrs_after n (q @ [i]) =
       map ((@) q) (leaf_list (Suc i) (drop (Suc i) (children m)) @ (if is_leaf m then [[]] else []))
       @ ptrs_after n q"
proof (induction q arbitrary: n)
  case Nil
  then show ?case by simp
next
  case (Cons j q)
  then have m: "node_at (children n ! j) q = Some m"
    by (auto split: if_splits)
  show ?case
    using Cons.IH [OF m Cons.prems(2)] by simp
qed

lemma ptrs_left_snoc:
  "node_at n q = Some m \<Longrightarrow> i < length (children m) \<Longrightarrow>
     ptrs_left n (q @ [i]) = ptrs_left n q @ map ((@) q) (leaf_list 0 (take i (children m)))"
proof (induction q arbitrary: n)
  case Nil
  then show ?case by simp
next
  case (Cons j q)
  then have m: "node_at (children n ! j) q = Some m"
    by (auto split: if_splits)
  show ?case
    using Cons.IH [OF m Cons.prems(2)] by simp
qed

lemma key_path_snoc:
  "node_at n q = Some m \<Longrightarrow> i < length (children m) \<Longrightarrow>
     key_path n (q @ [i]) = key_path n q @ [data_first (children m ! i)]"
proof (induction q arbitrary: n)
  case Nil
  then show ?case by simp
next
  case (Cons j q)
  then have m: "node_at (children n ! j) q = Some m"
    by (auto split: if_splits)
  show ?case
    using Cons.IH [OF m Cons.prems(2)] by simp
qed

lemma length_key_path [simp]: "length (key_path n p) = length p"
  by (induction p arbitrary: n) auto

subsection \<open>key()\<close>

lemma key_loop_key_path:
  "node_at tp node = Some m \<Longrightarrow> key_loop tp node key_str = Inr (key_path tp node @ key_str)"
proof (induction node arbitrary: m key_str rule: rev_induct)
  case Nil
  show ?case by (simp add: key_loop.simps)
next
  case (snoc i q)
  from snoc.prems obtain pm where pm: "node_at tp q = Some pm" and i: "i < length (children pm)"
    and m: "m = children pm ! i"
    by (auto simp: node_at_snoc split: option.splits if_splits)
  have "key_loop tp (q @ [i]) key_str = key_loop tp q (data_first m # key_str)"
    using snoc.prems by (subst key_loop.simps) simp
  then show ?case
    using snoc.IH [OF pm] key_path_snoc [OF pm i] m by simp
qed

lemma iter_key_key_path:
  "node_at (top_node t) p = Some m \<Longrightarrow> iter_key t p = Inr (key_path (top_node t) p)"
  by (simp add: iter_key_def key_loop_key_path)

subsection \<open>The descents\<close>

lemma leafy_iff: "leafy n \<longleftrightarrow> (is_leaf n \<or> children n \<noteq> []) \<and> list_all leafy (children n)"
  by (cases n) simp

lemma inner_ok_leafy: "inner_ok n \<Longrightarrow> leafy n"
  by (induction n) (auto simp: list_all_iff)

lemma sentinel_leafy: "is_sentinel s \<Longrightarrow> leafy s"
  by (cases s) (simp add: is_sentinel_def)

lemma leafy_child: "leafy n \<Longrightarrow> i < length (children n) \<Longrightarrow> leafy (children n ! i)"
  by (auto simp: leafy_iff [of n] list_all_length)

lemma leafy_at: "leafy n \<Longrightarrow> node_at n p = Some m \<Longrightarrow> leafy m"
  by (induction p arbitrary: n) (auto split: if_splits intro: leafy_child)

lemma leafy_leaf_ptrs: "leafy n \<Longrightarrow> leaf_ptrs n \<noteq> []"
proof (induction n)
  case (Node s v l cs)
  show ?case
  proof (cases cs)
    case Nil
    with Node.prems show ?thesis by simp
  next
    case (Cons c cs')
    then have "leaf_ptrs c \<noteq> []"
      using Node by simp
    then show ?thesis
      using Cons by simp
  qed
qed

lemma leafy_leaf_list: "list_all leafy cs \<Longrightarrow> cs \<noteq> [] \<Longrightarrow> leaf_list i cs \<noteq> []"
  by (cases cs) (auto dest: leafy_leaf_ptrs)

lemma incr_descend_first:
  "leafy m \<Longrightarrow> incr_descend p m = Inr (p @ hd (leaf_ptrs m))"
proof (induction m arbitrary: p)
  case (Node s v l cs)
  show ?case
  proof (cases cs)
    case Nil
    with Node.prems show ?thesis by simp
  next
    case (Cons c cs')
    then have c: "leafy c"
      using Node.prems by simp
    then have "leaf_ptrs c \<noteq> []"
      by (rule leafy_leaf_ptrs)
    then show ?thesis
      using Node.IH [of c "p @ [0]"] c Cons by (simp add: hd_map)
  qed
qed

lemma begin_walk_first: "leafy m \<Longrightarrow> begin_walk m = hd (leaf_ptrs m)"
proof (induction m)
  case (Node s v l cs)
  show ?case
  proof (cases cs)
    case Nil
    with Node.prems show ?thesis by simp
  next
    case (Cons c cs')
    then have c: "leafy c"
      using Node.prems by simp
    then have "leaf_ptrs c \<noteq> []"
      by (rule leafy_leaf_ptrs)
    then show ?thesis
      using Node.IH [of c] c Cons by (simp add: hd_map)
  qed
qed

lemma last_leaf_list:
  assumes "cs \<noteq> []" and "leaf_ptrs (last cs) \<noteq> []"
  shows "last (leaf_list 0 cs) = (length cs - 1) # last (leaf_ptrs (last cs))"
proof -
  have "cs = butlast cs @ [last cs]"
    using assms(1) by simp
  then have "leaf_list 0 cs = leaf_list 0 (butlast cs @ [last cs])"
    by simp
  also have "\<dots> = leaf_list 0 (butlast cs) @ map ((#) (length cs - 1)) (leaf_ptrs (last cs))"
    by (simp add: leaf_list_append)
  finally show ?thesis
    using assms(2) by (simp add: last_map)
qed

lemma decr_descend_last:
  "leafy m \<Longrightarrow> \<not> prefix p self \<Longrightarrow> decr_descend self p m = Inr (p @ last (leaf_ptrs m))"
proof (induction self p m rule: decr_descend.induct)
  case (1 self node n)
  have ne: "node \<noteq> self"
    using "1.prems"(2) by auto
  show ?case
  proof (cases "is_leaf n")
    case True
    then show ?thesis
      using ne by (subst decr_descend.simps) (simp add: leaf_ptrs_eq [of n])
  next
    case False
    then have ch: "children n \<noteq> []" and all: "list_all leafy (children n)"
      using "1.prems"(1) by (auto simp: leafy_iff [of n])
    then have ll: "leafy (last (children n))"
      by (simp add: list_all_iff)
    have np: "\<not> prefix (node @ [length (children n) - 1]) self"
      using "1.prems"(2) by (meson append_prefixD)
    have "decr_descend self (node @ [length (children n) - 1]) (last (children n))
        = Inr ((node @ [length (children n) - 1]) @ last (leaf_ptrs (last (children n))))"
      using False ch ll np by (intro "1.IH") auto
    moreover have "last (leaf_ptrs n) = (length (children n) - 1) # last (leaf_ptrs (last (children n)))"
      using False last_leaf_list [OF ch leafy_leaf_ptrs [OF ll]]
        leafy_leaf_list [OF all ch, of 0]
      by (simp add: leaf_ptrs_eq [of n])
    ultimately show ?thesis
      using False ch by (subst decr_descend.simps) simp
  qed
qed

lemma decr_descend_self:
  assumes "list_all leafy (children m)" and "children m \<noteq> []"
  shows "decr_descend self self m = Inr (self @ last (leaf_list 0 (children m)))"
proof -
  have ll: "leafy (last (children m))"
    using assms by (simp add: list_all_iff)
  have "\<not> prefix (self @ [length (children m) - 1]) self"
    by simp
  then have "decr_descend self (self @ [length (children m) - 1]) (last (children m))
      = Inr ((self @ [length (children m) - 1]) @ last (leaf_ptrs (last (children m))))"
    using ll by (intro decr_descend_last)
  then show ?thesis
    using assms(2) last_leaf_list [OF assms(2) leafy_leaf_ptrs [OF ll]]
    by (subst decr_descend.simps) simp
qed

subsection \<open>operator++ steps to the next leaf pointer\<close>

lemma leafy_below_top:
  "list_all leafy (children tp) \<Longrightarrow> node_at tp p = Some m \<Longrightarrow> p \<noteq> [] \<Longrightarrow> leafy m"
  by (cases p) (auto simp: list_all_length split: if_splits intro: leafy_at)

lemma well_formed_leafy: "well_formed t \<Longrightarrow> list_all leafy (children (top_node t))"
proof -
  assume "well_formed t"
  then obtain cs s where "children (top_node t) = cs @ [s]" "is_sentinel s" "list_all inner_ok cs"
    by (rule well_formedE)
  then show ?thesis
    by (auto simp: list_all_iff intro: inner_ok_leafy sentinel_leafy)
qed

lemma incr_climb_correct:
  assumes srt: "sorted_node tp" and lf: "list_all leafy (children tp)"
  shows "node_at tp node = Some m \<Longrightarrow> length node \<le> length self \<Longrightarrow>
     (if is_leaf m \<and> node \<noteq> self then [node] else []) @ ptrs_after tp node \<noteq> [] \<Longrightarrow>
     (case incr_climb tp self node of
        Inl e \<Rightarrow> Inl e
      | Inr (Return q) \<Rightarrow> Inr q
      | Inr (Break q) \<Rightarrow>
          (case node_at tp q of None \<Rightarrow> Inl UndefinedBehaviour | Some mq \<Rightarrow> incr_descend q mq))
     = Inr (hd ((if is_leaf m \<and> node \<noteq> self then [node] else []) @ ptrs_after tp node))"
proof (induction node arbitrary: m rule: rev_induct)
  case Nil
  then have "is_leaf tp \<and> [] \<noteq> self" and "m = tp"
    by (auto split: if_splits)
  then show ?case
    by (subst incr_climb.simps) simp
next
  case (snoc i q)
  from snoc.prems(1) obtain pm where pm: "node_at tp q = Some pm"
    and i: "i < length (children pm)" and m: "m = children pm ! i"
    by (auto simp: node_at_snoc split: option.splits if_splits)
  show ?case
  proof (cases "is_leaf m \<and> q @ [i] \<noteq> self")
    case True
    then show ?thesis
      using snoc.prems(1) by (subst incr_climb.simps) simp
  next
    case False
    then have nl: "(if is_leaf m \<and> q @ [i] \<noteq> self then [q @ [i]] else []) = []"
      by simp
    have "sorted_wrt (<) (map data_first (children pm))"
      using sorted_node_at [OF srt pm] by (rule sorted_node_children)
    then have fk: "find_by_key (children pm) (data_first m) = Some i"
      using i m by (simp add: find_by_key_nth)
    have after: "ptrs_after tp (q @ [i]) =
        map ((@) q) (leaf_list (Suc i) (drop (Suc i) (children pm)) @ (if is_leaf pm then [[]] else []))
        @ ptrs_after tp q"
      using pm i by (rule ptrs_after_snoc)
    show ?thesis
    proof (cases "Suc i < length (children pm)")
      case True
      let ?mq = "children pm ! Suc i"
      have climb: "incr_climb tp self (q @ [i]) = Inr (Break (q @ [Suc i]))"
        using snoc.prems(1) False pm fk True
        by (subst incr_climb.simps) auto
      have mq: "node_at tp (q @ [Suc i]) = Some ?mq"
        using pm True by (simp add: node_at_snoc)
      have "leafy ?mq"
        using lf mq by (rule leafy_below_top) simp
      then have d: "incr_descend (q @ [Suc i]) ?mq = Inr ((q @ [Suc i]) @ hd (leaf_ptrs ?mq))"
        and ne: "leaf_ptrs ?mq \<noteq> []"
        by (rule incr_descend_first, rule leafy_leaf_ptrs)
      have "drop (Suc i) (children pm) = ?mq # drop (Suc (Suc i)) (children pm)"
        using True by (simp add: Cons_nth_drop_Suc)
      then have "hd (ptrs_after tp (q @ [i])) = q @ Suc i # hd (leaf_ptrs ?mq)"
        using ne by (simp add: after hd_map hd_append)
      then show ?thesis
        unfolding nl using climb mq d by simp
    next
      case last: False
      then have dr: "drop (Suc i) (children pm) = []"
        by simp
      have climb: "incr_climb tp self (q @ [i]) = incr_climb tp self q"
        using snoc.prems(1) False pm fk last i
        by (subst incr_climb.simps) auto
      have qs: "q \<noteq> self"
        using snoc.prems(2) by auto
      have eq: "(if is_leaf m \<and> q @ [i] \<noteq> self then [q @ [i]] else []) @ ptrs_after tp (q @ [i])
          = (if is_leaf pm \<and> q \<noteq> self then [q] else []) @ ptrs_after tp q"
        unfolding nl using qs by (simp add: after dr)
      have "(case incr_climb tp self q of
               Inl e \<Rightarrow> Inl e
             | Inr (Return q) \<Rightarrow> Inr q
             | Inr (Break q) \<Rightarrow>
                 (case node_at tp q of None \<Rightarrow> Inl UndefinedBehaviour | Some mq \<Rightarrow> incr_descend q mq))
          = Inr (hd ((if is_leaf pm \<and> q \<noteq> self then [q] else []) @ ptrs_after tp q))"
        using snoc.prems(2,3) eq by (intro snoc.IH [OF pm]) auto
      then show ?thesis
        using eq climb by simp
    qed
  qed
qed

lemma ptrs_after_entry:
  assumes "well_formed t" and "at_entry t self"
  shows "ptrs_after (top_node t) self \<noteq> []"
proof
  assume emp: "ptrs_after (top_node t) self = []"
  from assms(1) obtain cs s where top: "children (top_node t) = cs @ [s]"
    by (rule well_formedE)
  have "leaf_at (top_node t) self"
    using assms(2) by (simp add: at_entry_def leaf_at_def)
  then have "leaf_ptrs (top_node t) = ptrs_before (top_node t) self @ [self]"
    using leaf_ptrs_decompose [of "top_node t" self] emp by simp
  then have "last (leaf_ptrs (top_node t)) = self"
    by simp
  moreover have "last (leaf_ptrs (top_node t)) = trie_end t"
    using well_formed_leaf_ptrs(1) [OF assms(1) top] by simp
  ultimately show False
    using assms(2) by (simp add: at_entry_def)
qed

lemma entry_symbol:
  assumes "well_formed t" and "at_entry t self" and "node_at (top_node t) self = Some m"
  shows "data_first m \<noteq> top"
proof -
  from assms(1,2) obtain cs s i r where top: "children (top_node t) = cs @ [s]"
      "list_all inner_ok cs" "self = i # r" "i < length cs"
    by (rule at_entryD)
  have "node_at (cs ! i) r = Some m"
    using assms(3) top(1,3,4) by (simp add: nth_append)
  moreover have "inner_ok (cs ! i)"
    using top(2,4) by (simp add: list_all_length)
  ultimately have "inner_ok m"
    using inner_ok_at by blast
  then show ?thesis
    by (simp add: inner_ok_iff [of m])
qed

lemma incr_target_next:
  assumes wf: "well_formed t" and e: "at_entry t self"
  shows "incr_target t self = Inr (hd (ptrs_after (top_node t) self))"
proof -
  from e obtain m where m: "node_at (top_node t) self = Some m" "is_leaf m"
    by (auto simp: at_entry_def split: option.splits)
  have ne: "ptrs_after (top_node t) self \<noteq> []"
    using wf e by (rule ptrs_after_entry)
  have srt: "sorted_node (top_node t)"
    using wf by (simp add: well_formed_def)
  have "(case incr_climb (top_node t) self self of
        Inl e \<Rightarrow> Inl e
      | Inr (Return q) \<Rightarrow> Inr q
      | Inr (Break q) \<Rightarrow>
          (case node_at (top_node t) q of None \<Rightarrow> Inl UndefinedBehaviour
           | Some mq \<Rightarrow> incr_descend q mq))
     = Inr (hd ((if is_leaf m \<and> self \<noteq> self then [self] else []) @ ptrs_after (top_node t) self))"
    using m(1) ne by (intro incr_climb_correct [OF srt well_formed_leafy [OF wf]]) auto
  then show ?thesis
    using m(1) entry_symbol [OF wf e m(1)]
    by (simp add: incr_target_def split: sum.splits climb.splits)
qed

subsection \<open>operator-- steps to the previous leaf pointer\<close>

lemma decr_climb_correct:
  assumes srt: "sorted_node tp" and lf: "list_all leafy (children tp)"
  shows "node_at tp node = Some m \<Longrightarrow> prefix node self \<Longrightarrow>
     (case decr_climb tp node of
        Inl e \<Rightarrow> Inl e
      | Inr q \<Rightarrow>
          (case node_at tp q of None \<Rightarrow> Inl UndefinedBehaviour | Some mq \<Rightarrow> decr_descend self q mq))
     = (if ptrs_left tp node = [] then Inl DecrementBegin else Inr (last (ptrs_left tp node)))"
proof (induction node arbitrary: m rule: rev_induct)
  case Nil
  show ?case
    by (subst decr_climb.simps) simp
next
  case (snoc i q)
  from snoc.prems(1) obtain pm where pm: "node_at tp q = Some pm"
    and i: "i < length (children pm)" and m: "m = children pm ! i"
    by (auto simp: node_at_snoc split: option.splits if_splits)
  have "sorted_wrt (<) (map data_first (children pm))"
    using sorted_node_at [OF srt pm] by (rule sorted_node_children)
  then have fk: "find_by_key (children pm) (data_first m) = Some i"
    using i m by (simp add: find_by_key_nth)
  have left: "ptrs_left tp (q @ [i]) = ptrs_left tp q @ map ((@) q) (leaf_list 0 (take i (children pm)))"
    using pm i by (rule ptrs_left_snoc)
  have pq: "prefix q self"
    using snoc.prems(2) by (rule append_prefixD)
  show ?case
  proof (cases i)
    case 0
    have climb: "decr_climb tp (q @ [i]) = decr_climb tp q"
      using snoc.prems(1) pm fk 0
      by (subst decr_climb.simps) auto
    show ?thesis
      using snoc.IH [OF pm pq] climb left 0 by simp
  next
    case (Suc j)
    let ?mq = "children pm ! j"
    have j: "j < length (children pm)"
      using i Suc by simp
    have climb: "decr_climb tp (q @ [i]) = Inr (q @ [j])"
      using snoc.prems(1) pm fk Suc i
      by (subst decr_climb.simps) auto
    have mq: "node_at tp (q @ [j]) = Some ?mq"
      using pm j by (simp add: node_at_snoc)
    have lq: "leafy ?mq"
      using lf mq by (rule leafy_below_top) simp
    have "\<not> prefix (q @ [j]) self"
    proof
      assume "prefix (q @ [j]) self"
      then obtain r1 where "self = q @ j # r1"
        by (auto simp: prefix_def)
      moreover obtain r2 where "self = q @ Suc j # r2"
        using snoc.prems(2) Suc by (auto simp: prefix_def)
      ultimately show False by simp
    qed
    then have d: "decr_descend self (q @ [j]) ?mq = Inr ((q @ [j]) @ last (leaf_ptrs ?mq))"
      using lq by (intro decr_descend_last)
    have "take (Suc j) (children pm) = take j (children pm) @ [?mq]"
      using j by (simp add: take_Suc_conv_app_nth)
    then have "leaf_list 0 (take i (children pm))
        = leaf_list 0 (take j (children pm)) @ map ((#) j) (leaf_ptrs ?mq)"
      using j Suc by (simp add: leaf_list_append min_def)
    then have "ptrs_left tp (q @ [i]) \<noteq> [] \<and> last (ptrs_left tp (q @ [i])) = q @ j # last (leaf_ptrs ?mq)"
      using leafy_leaf_ptrs [OF lq] by (simp add: left last_map)
    then show ?thesis
      using climb mq d by simp
  qed
qed

lemma decr_target_prev:
  assumes wf: "well_formed t" and l: "leaf_at (top_node t) self"
  shows "decr_target t self =
     (if ptrs_before (top_node t) self = [] then Inl DecrementBegin
      else Inr (last (ptrs_before (top_node t) self)))"
proof -
  from l obtain m where m: "node_at (top_node t) self = Some m" "is_leaf m"
    by (auto simp: leaf_at_def split: option.splits)
  have srt: "sorted_node (top_node t)" and nl: "\<not> is_leaf (top_node t)"
    using wf by (simp_all add: well_formed_def)
  have lf: "list_all leafy (children (top_node t))"
    using wf by (rule well_formed_leafy)
  have "self \<noteq> []"
    using m nl by auto
  then have lm: "leafy m"
    using lf m(1) leafy_below_top by blast
  have before: "ptrs_before (top_node t) self
      = ptrs_left (top_node t) self @ map ((@) self) (leaf_list 0 (children m))"
    using m(1) by (rule ptrs_before_left)
  show ?thesis
  proof (cases "children m = []")
    case True
    have "(case decr_climb (top_node t) self of
        Inl e \<Rightarrow> Inl e
      | Inr q \<Rightarrow>
          (case node_at (top_node t) q of None \<Rightarrow> Inl UndefinedBehaviour
           | Some mq \<Rightarrow> decr_descend self q mq))
     = (if ptrs_left (top_node t) self = [] then Inl DecrementBegin
        else Inr (last (ptrs_left (top_node t) self)))"
      using m(1) by (intro decr_climb_correct [OF srt lf]) auto
    then show ?thesis
      using m(1) True before by (simp add: decr_target_def split: sum.splits)
  next
    case False
    have all: "list_all leafy (children m)"
      using lm by (simp add: leafy_iff [of m])
    have "leaf_list 0 (children m) \<noteq> []"
      using all False by (rule leafy_leaf_list)
    then show ?thesis
      using m(1) False before decr_descend_self [OF all False, of self]
      by (simp add: decr_target_def last_map)
  qed
qed

subsection \<open>The loops over the iterator\<close>

lemma split_unique:
  assumes "distinct (xs @ p # ys)" and "xs @ p # ys = xs' @ p # ys'"
  shows "xs = xs' \<and> ys = ys'"
proof -
  have "distinct (xs' @ p # ys')"
    using assms by simp
  then have "p \<notin> set xs'"
    by simp
  moreover have "p \<notin> set xs"
    using assms(1) by simp
  ultimately have "p \<notin> set xs" "p \<notin> set xs'"
    by simp_all
  then have "takeWhile (\<lambda>x. x \<noteq> p) (xs @ p # ys) = xs"
    and "takeWhile (\<lambda>x. x \<noteq> p) (xs' @ p # ys') = xs'"
    by (auto simp: takeWhile_tail takeWhile_eq_all_conv)
  then have "xs = xs'"
    using assms(2) by simp
  then show ?thesis
    using assms(2) by simp
qed

lemma leaf_ptrs_after:
  assumes "leaf_ptrs n = xs @ p # ys"
  shows "ptrs_after n p = ys" and "ptrs_before n p = xs"
proof -
  have "p \<in> set (leaf_ptrs n)"
    using assms by simp
  then have "leaf_at n p"
    by (simp add: in_leaf_ptrs_iff)
  then have "leaf_ptrs n = ptrs_before n p @ p # ptrs_after n p"
    by (rule leaf_ptrs_decompose)
  then have "xs = ptrs_before n p \<and> ys = ptrs_after n p"
    using assms distinct_leaf_ptrs [of n] by (intro split_unique) auto
  then show "ptrs_after n p = ys" and "ptrs_before n p = xs"
    by auto
qed

lemma well_formed_last_ptr:
  assumes "well_formed t"
  shows "leaf_ptrs (top_node t) = entries t @ [trie_end t]"
proof -
  from assms obtain cs s where top: "children (top_node t) = cs @ [s]"
    by (rule well_formedE)
  from well_formed_leaf_ptrs [OF assms top] show ?thesis by simp
qed

lemma well_formed_begin:
  assumes "well_formed t"
  shows "trie_begin t = hd (leaf_ptrs (top_node t))"
proof -
  from assms obtain cs s where top: "children (top_node t) = cs @ [s]" "is_sentinel s"
    by (rule well_formedE)
  have "leafy (top_node t)"
    using well_formed_leafy [OF assms] top(1) by (simp add: leafy_iff [of "top_node t"])
  then have b: "begin_walk (top_node t) = hd (leaf_ptrs (top_node t))"
    by (rule begin_walk_first)
  show ?thesis
  proof (cases "trie_empty t")
    case True
    then have "cs = []"
      using top(1) by (simp add: trie_empty_def)
    then have "leaf_ptrs (top_node t) = [trie_end t]"
      using well_formed_leaf_ptrs(1) [OF assms top(1)] by simp
    then show ?thesis
      using True by (simp add: trie_begin_def)
  next
    case False
    then show ?thesis
      using b by (simp add: trie_begin_def)
  qed
qed

lemma entry_key:
  "p \<in> set (leaf_ptrs (top_node t)) \<Longrightarrow> iter_key t p = Inr (key_path (top_node t) p)"
  by (auto simp: in_leaf_ptrs_iff leaf_at_def split: option.splits intro: iter_key_key_path)

lemma iter_incr_split:
  assumes wf: "well_formed t" and l: "leaf_ptrs (top_node t) = xs @ p # q # ys"
  shows "p \<noteq> trie_end t" and "iter_incr t p = (Inr q, q)"
proof -
  have d: "distinct (xs @ p # q # ys)"
    using distinct_leaf_ptrs [of "top_node t"] l by simp
  have "last (xs @ p # q # ys) = trie_end t"
    using well_formed_last_ptr [OF wf] l by (metis last_snoc)
  then have "trie_end t \<in> set (q # ys)"
    by (metis last_appendR last_in_set last_ConsR list.distinct(1))
  then show ne: "p \<noteq> trie_end t"
    using d by auto
  have "leaf_at (top_node t) p"
    using l by (simp add: in_leaf_ptrs_iff [symmetric])
  then have "at_entry t p"
    using ne by (simp add: at_entry_def leaf_at_def)
  then have "incr_target t p = Inr (hd (ptrs_after (top_node t) p))"
    using wf by (intro incr_target_next)
  then show "iter_incr t p = (Inr q, q)"
    using leaf_ptrs_after(1) [OF l] by (simp add: iter_incr_def)
qed

lemma iter_decr_split:
  assumes wf: "well_formed t" and l: "leaf_ptrs (top_node t) = xs @ q # p # ys"
  shows "p \<noteq> trie_begin t" and "iter_decr t p = (Inr q, q)"
proof -
  have d: "distinct (xs @ q # p # ys)"
    using distinct_leaf_ptrs [of "top_node t"] l by simp
  have "hd (xs @ q # p # ys) \<in> set (xs @ [q])"
    by (cases xs) auto
  then show "p \<noteq> trie_begin t"
    using d well_formed_begin [OF wf] l by auto
  have l': "leaf_ptrs (top_node t) = (xs @ [q]) @ p # ys"
    using l by simp
  have "leaf_at (top_node t) p"
    using l by (simp add: in_leaf_ptrs_iff [symmetric])
  then have "decr_target t p =
     (if ptrs_before (top_node t) p = [] then Inl DecrementBegin
      else Inr (last (ptrs_before (top_node t) p)))"
    using wf by (intro decr_target_prev)
  then show "iter_decr t p = (Inr q, q)"
    using leaf_ptrs_after(2) [OF l'] by (simp add: iter_decr_def)
qed

lemma forward_loop_correct:
  assumes wf: "well_formed t"
  shows "leaf_ptrs (top_node t) = xs @ p # ys \<Longrightarrow>
     forward_loop t p visited =
       Some (Inr (visited @ map (key_path (top_node t)) (butlast (p # ys))))"
proof (induction ys arbitrary: xs p visited)
  case Nil
  then have "p = trie_end t"
    using well_formed_last_ptr [OF wf] by simp
  then show ?case
    by (subst forward_loop.simps) simp
next
  case (Cons q ys)
  have k: "iter_key t p = Inr (key_path (top_node t) p)"
    using Cons.prems by (intro entry_key) simp
  have l': "leaf_ptrs (top_node t) = (xs @ [p]) @ q # ys"
    using Cons.prems by simp
  show ?case
    using iter_incr_split [OF wf Cons.prems] k Cons.IH [OF l']
    by (subst forward_loop.simps) simp
qed

lemma backward_loop_correct:
  assumes wf: "well_formed t"
  shows "leaf_ptrs (top_node t) = xs @ p # ys \<Longrightarrow>
     backward_loop t p visited = Some (Inr (visited @ map (key_path (top_node t)) (rev xs)))"
proof (induction xs arbitrary: ys p visited rule: rev_induct)
  case Nil
  then have "p = trie_begin t"
    using well_formed_begin [OF wf] by simp
  then show ?case
    by (subst backward_loop.simps) simp
next
  case (snoc q xs)
  have l: "leaf_ptrs (top_node t) = xs @ q # p # ys"
    using snoc.prems by simp
  have k: "iter_key t q = Inr (key_path (top_node t) q)"
    using l by (intro entry_key) simp
  show ?case
    using iter_decr_split [OF wf l] k snoc.IH [OF l]
    by (subst backward_loop.simps) simp
qed

lemma leaf_ptrs_hd:
  assumes "well_formed t"
  shows "leaf_ptrs (top_node t) = [] @ trie_begin t # tl (leaf_ptrs (top_node t))"
  using well_formed_last_ptr [OF assms] well_formed_begin [OF assms]
  by (cases "leaf_ptrs (top_node t)") auto

lemma forward_keys_correct:
  assumes "well_formed t"
  shows "forward_keys t = Some (Inr (map (key_path (top_node t)) (entries t)))"
proof -
  have "trie_begin t # tl (leaf_ptrs (top_node t)) = entries t @ [trie_end t]"
    using leaf_ptrs_hd [OF assms] well_formed_last_ptr [OF assms] by simp
  then have "butlast (trie_begin t # tl (leaf_ptrs (top_node t))) = entries t"
    by (metis butlast_snoc)
  then show ?thesis
    using forward_loop_correct [OF assms leaf_ptrs_hd [OF assms], of "[]"]
    by (simp add: forward_keys_def)
qed

lemma backward_keys_correct:
  assumes "well_formed t"
  shows "backward_keys t = Some (Inr (rev (map (key_path (top_node t)) (entries t))))"
  using backward_loop_correct [OF assms, of "entries t" "trie_end t" "[]" "[]"]
    well_formed_last_ptr [OF assms]
  by (simp add: backward_keys_def rev_map)

subsection \<open>find_longest_prefix\<close>

lemma longest_loop_fold:
  assumes wf: "well_formed t"
  shows "leaf_ptrs (top_node t) = xs @ p # ys \<Longrightarrow>
     longest_loop t p max_length long_iter =
       Some (Inr (snd (fold (\<lambda>e (ml, li). if length e > ml then (length e, e) else (ml, li))
                            (butlast (p # ys)) (max_length, long_iter))))"
proof (induction ys arbitrary: xs p max_length long_iter)
  case Nil
  then have "p = trie_end t"
    using well_formed_last_ptr [OF wf] by simp
  then show ?case
    by (subst longest_loop.simps) simp
next
  case (Cons q ys)
  have k: "iter_key t p = Inr (key_path (top_node t) p)"
    using Cons.prems by (intro entry_key) simp
  have l': "leaf_ptrs (top_node t) = (xs @ [p]) @ q # ys"
    using Cons.prems by simp
  show ?case
    using iter_incr_split [OF wf Cons.prems] k Cons.IH [OF l']
    by (subst longest_loop.simps) simp
qed

lemma fold_longest:
  fixes es :: "'a list list"
  defines "step \<equiv> (\<lambda>e (ml, li). if length e > ml then (length e, e) else (ml, li))"
  shows "((\<forall>e\<in>set es. length e \<le> ml) \<and> fold step es (ml, li) = (ml, li)) \<or>
     (\<exists>j<length es. fold step es (ml, li) = (length (es ! j), es ! j) \<and> ml < length (es ! j) \<and>
        (\<forall>i<length es. length (es ! i) \<le> length (es ! j)) \<and>
        (\<forall>i<j. length (es ! i) < length (es ! j)))"
proof (induction es arbitrary: ml li)
  case Nil
  show ?case by simp
next
  case (Cons e es)
  show ?case
  proof (cases "length e > ml")
    case True
    then have f: "fold step (e # es) (ml, li) = fold step es (length e, e)"
      by (simp add: step_def)
    from Cons.IH [of "length e" e] show ?thesis
    proof
      assume a: "(\<forall>x\<in>set es. length x \<le> length e) \<and> fold step es (length e, e) = (length e, e)"
      have "\<forall>i<length (e # es). length ((e # es) ! i) \<le> length e"
      proof (intro allI impI)
        fix i assume "i < length (e # es)"
        then show "length ((e # es) ! i) \<le> length e"
          using a by (cases i) auto
      qed
      then show ?thesis
        using a f True by (intro disjI2 exI [of _ 0]) simp
    next
      assume "\<exists>j<length es. fold step es (length e, e) = (length (es ! j), es ! j) \<and>
          length e < length (es ! j) \<and> (\<forall>i<length es. length (es ! i) \<le> length (es ! j)) \<and>
          (\<forall>i<j. length (es ! i) < length (es ! j))"
      then obtain j where j: "j < length es"
          "fold step es (length e, e) = (length (es ! j), es ! j)" "length e < length (es ! j)"
          "\<forall>i<length es. length (es ! i) \<le> length (es ! j)"
          "\<forall>i<j. length (es ! i) < length (es ! j)"
        by blast
      have 1: "\<forall>i<length (e # es). length ((e # es) ! i) \<le> length ((e # es) ! Suc j)"
      proof (intro allI impI)
        fix i assume "i < length (e # es)"
        then show "length ((e # es) ! i) \<le> length ((e # es) ! Suc j)"
          using j(3,4) by (cases i) auto
      qed
      have 2: "\<forall>i<Suc j. length ((e # es) ! i) < length ((e # es) ! Suc j)"
      proof (intro allI impI)
        fix i assume "i < Suc j"
        then show "length ((e # es) ! i) < length ((e # es) ! Suc j)"
          using j(3,5) by (cases i) auto
      qed
      show ?thesis
        using j(1,2,3) f True 1 2 by (intro disjI2 exI [of _ "Suc j"]) simp
    qed
  next
    case False
    then have f: "fold step (e # es) (ml, li) = fold step es (ml, li)"
      by (simp add: step_def)
    from Cons.IH [of ml li] show ?thesis
    proof
      assume "(\<forall>x\<in>set es. length x \<le> ml) \<and> fold step es (ml, li) = (ml, li)"
      then show ?thesis
        using f False by (intro disjI1) simp
    next
      assume "\<exists>j<length es. fold step es (ml, li) = (length (es ! j), es ! j) \<and>
          ml < length (es ! j) \<and> (\<forall>i<length es. length (es ! i) \<le> length (es ! j)) \<and>
          (\<forall>i<j. length (es ! i) < length (es ! j))"
      then obtain j where j: "j < length es"
          "fold step es (ml, li) = (length (es ! j), es ! j)" "ml < length (es ! j)"
          "\<forall>i<length es. length (es ! i) \<le> length (es ! j)"
          "\<forall>i<j. length (es ! i) < length (es ! j)"
        by blast
      have 1: "\<forall>i<length (e # es). length ((e # es) ! i) \<le> length ((e # es) ! Suc j)"
      proof (intro allI impI)
        fix i assume "i < length (e # es)"
        then show "length ((e # es) ! i) \<le> length ((e # es) ! Suc j)"
          using j(3,4) False by (cases i) auto
      qed
      have 2: "\<forall>i<Suc j. length ((e # es) ! i) < length ((e # es) ! Suc j)"
      proof (intro allI impI)
        fix i assume "i < Suc j"
        then show "length ((e # es) ! i) < length ((e # es) ! Suc j)"
          using j(3,5) False by (cases i) auto
      qed
      show ?thesis
        using j(1,2,3) f 1 2 by (intro disjI2 exI [of _ "Suc j"]) simp
    qed
  qed
qed

lemma find_longest_prefix_correct:
  assumes wf: "well_formed t"
  shows "\<exists>it. find_longest_prefix t = Some (Inr it) \<and>
     (if entries t = [] then it = trie_end t
      else \<exists>j<length (entries t). it = entries t ! j \<and>
        (\<forall>i<length (entries t). length (entries t ! i) \<le> length (entries t ! j)) \<and>
        (\<forall>i<j. length (entries t ! i) < length (entries t ! j)))"
proof -
  let ?step = "\<lambda>e (ml, li). if length e > ml then (length e, e) else (ml :: nat, li :: node_ptr)"
  have "trie_begin t # tl (leaf_ptrs (top_node t)) = entries t @ [trie_end t]"
    using leaf_ptrs_hd [OF wf] well_formed_last_ptr [OF wf] by simp
  then have "butlast (trie_begin t # tl (leaf_ptrs (top_node t))) = entries t"
    by (metis butlast_snoc)
  then have r: "find_longest_prefix t = Some (Inr (snd (fold ?step (entries t) (0, trie_end t))))"
    using longest_loop_fold [OF wf leaf_ptrs_hd [OF wf], of 0 "trie_end t"]
    by (simp add: find_longest_prefix_def)
  have pos: "\<forall>e\<in>set (entries t). 0 < length e"
    using wf by (auto simp: entries_def in_leaf_ptrs_iff well_formed_def)
  from fold_longest [of "entries t" 0 "trie_end t"] show ?thesis
  proof
    assume a: "(\<forall>e\<in>set (entries t). length e \<le> 0) \<and>
        fold ?step (entries t) (0, trie_end t) = (0, trie_end t)"
    then have "entries t = []"
      using pos by (cases "entries t") auto
    then show ?thesis
      using r by simp
  next
    assume "\<exists>j<length (entries t).
        fold ?step (entries t) (0, trie_end t) = (length (entries t ! j), entries t ! j) \<and>
        0 < length (entries t ! j) \<and>
        (\<forall>i<length (entries t). length (entries t ! i) \<le> length (entries t ! j)) \<and>
        (\<forall>i<j. length (entries t ! i) < length (entries t ! j))"
    then obtain j where j: "j < length (entries t)"
        "fold ?step (entries t) (0, trie_end t) = (length (entries t ! j), entries t ! j)"
        "\<forall>i<length (entries t). length (entries t ! i) \<le> length (entries t ! j)"
        "\<forall>i<j. length (entries t ! i) < length (entries t ! j)"
      by blast
    then have "entries t \<noteq> []" by auto
    then show ?thesis
      using r j by auto
  qed
qed

subsection \<open>The keys in the order of the leaf pointers\<close>

lemma key_path_leaf_list:
  "drop i (children n) = ds \<Longrightarrow>
     map (key_path n) (leaf_list i ds) =
       concat (map (\<lambda>c. map ((#) (data_first c)) (leaf_keys c)) ds)"
proof (induction ds arbitrary: i)
  case Nil
  show ?case by simp
next
  case (Cons d ds)
  then have i: "i < length (children n)"
    by (cases "i < length (children n)") auto
  then have "children n ! i # drop (Suc i) (children n) = d # ds"
    using Cons.prems by (simp add: Cons_nth_drop_Suc)
  then have d: "children n ! i = d" and ds: "drop (Suc i) (children n) = ds"
    by auto
  show ?case
    using Cons.IH [OF ds] d by (simp add: leaf_keys_def)
qed

lemma leaf_keys_eq:
  "leaf_keys n =
     concat (map (\<lambda>c. map ((#) (data_first c)) (leaf_keys c)) (children n))
     @ (if is_leaf n then [[]] else [])"
  using key_path_leaf_list [of 0 n "children n"]
  by (simp add: leaf_keys_def [of n] leaf_ptrs_eq [of n])

lemma sorted_child_keys:
  "sorted_wrt (<) (map data_first cs) \<Longrightarrow> (\<And>c. c \<in> set cs \<Longrightarrow> sorted_wrt visited_before (leaf_keys c))
    \<Longrightarrow> sorted_wrt visited_before (concat (map (\<lambda>c. map ((#) (data_first c)) (leaf_keys c)) cs))"
proof (induction cs)
  case Nil
  show ?case by simp
next
  case (Cons c cs)
  have "sorted_wrt visited_before (map ((#) (data_first c)) (leaf_keys c))"
    using Cons.prems(2) [of c] by (simp add: sorted_wrt_map)
  moreover have "sorted_wrt visited_before (concat (map (\<lambda>c. map ((#) (data_first c)) (leaf_keys c)) cs))"
    using Cons.prems by (intro Cons.IH) auto
  moreover have "\<forall>x\<in>set (map ((#) (data_first c)) (leaf_keys c)).
      \<forall>y\<in>set (concat (map (\<lambda>c. map ((#) (data_first c)) (leaf_keys c)) cs)). visited_before x y"
    using Cons.prems(1) by auto
  ultimately show ?case
    by (simp add: sorted_wrt_append)
qed

lemma sorted_leaf_keys: "sorted_node n \<Longrightarrow> sorted_wrt visited_before (leaf_keys n)"
proof (induction n)
  case (Node s v l cs)
  have 1: "sorted_wrt visited_before (concat (map (\<lambda>c. map ((#) (data_first c)) (leaf_keys c)) cs))"
    using Node by (intro sorted_child_keys) (auto simp: list_all_iff)
  have 2: "\<forall>x\<in>set (concat (map (\<lambda>c. map ((#) (data_first c)) (leaf_keys c)) cs)). visited_before x []"
    by auto
  show ?case
    using 1 2 by (simp add: leaf_keys_eq [of "Node s v l cs"] sorted_wrt_append)
qed

lemma visited_before_irrefl: "\<not> visited_before k k"
  by (induction k) auto

lemma sorted_wrt_irrefl_distinct:
  "sorted_wrt R xs \<Longrightarrow> (\<And>x. \<not> R x x) \<Longrightarrow> distinct xs"
  by (induction xs) auto

lemma visited_before_iff:
  "visited_before k k' \<longleftrightarrow> strict_prefix k' k \<or> (\<not> prefix k k' \<and> lex_less k k')"
  by (induction k k' rule: visited_before.induct) (auto simp: lex_less_def)

lemma visited_before_same_length:
  "visited_before k k' \<Longrightarrow> length k = length k' \<Longrightarrow> lex_less k k'"
  using prefix_length_less [of k' k] by (auto simp: visited_before_iff)

lemma sorted_wrt_butlast: "sorted_wrt R xs \<Longrightarrow> sorted_wrt R (butlast xs)"
  by (induction xs) (auto dest: in_set_butlastD)

subsection \<open>The stored keys are the keys of the entries\<close>

lemma stored_entries:
  assumes wf: "well_formed t"
  shows "stored t k \<longleftrightarrow> k \<in> set (map (key_path (top_node t)) (entries t))"
proof
  have srt: "sorted_node (top_node t)" and nl: "\<not> is_leaf (top_node t)"
    using wf by (simp_all add: well_formed_def)
  {
    assume "stored t k"
    then obtain p where p: "find_walk (top_node t) k = Some p" "p \<noteq> trie_end t"
      by (auto simp: stored_def trie_find_def split: option.splits)
    then have a: "advance_walk (top_node t) k = Some p" and l: "leaf_at (top_node t) p"
      by (auto simp: find_walk_eq split: if_splits option.splits)
    have "p \<in> set (entries t)"
      using l p(2) by (simp add: entries_def in_leaf_ptrs_iff)
    moreover have "key_path (top_node t) p = k"
      using advance_walk_SomeD [OF a] by simp
    ultimately show "k \<in> set (map (key_path (top_node t)) (entries t))"
      by auto
  }
  {
    assume "k \<in> set (map (key_path (top_node t)) (entries t))"
    then obtain p where p: "p \<in> set (entries t)" "key_path (top_node t) p = k"
      by auto
    then have l: "leaf_at (top_node t) p" and ne: "p \<noteq> trie_end t"
      by (auto simp: entries_def in_leaf_ptrs_iff)
    then obtain m where m: "node_at (top_node t) p = Some m"
      by (auto simp: leaf_at_def split: option.splits)
    have "p \<noteq> []"
      using l nl by auto
    then have "k \<noteq> []"
      using p(2) length_key_path [of "top_node t" p] by auto
    moreover have "advance_walk (top_node t) k = Some p"
      using advance_walk_key_path [OF srt m] p(2) by simp
    ultimately have "find_walk (top_node t) k = Some p"
      using l by (simp add: find_walk_eq)
    then show "stored t k"
      using ne by (simp add: stored_def trie_find_def)
  }
qed

lemma well_formed_keys:
  assumes wf: "well_formed t"
  shows "sorted_wrt visited_before (map (key_path (top_node t)) (entries t))"
    and "distinct (map (key_path (top_node t)) (entries t))"
proof -
  have "sorted_wrt visited_before (leaf_keys (top_node t))"
    using wf by (intro sorted_leaf_keys) (simp add: well_formed_def)
  then have "sorted_wrt visited_before (butlast (leaf_keys (top_node t)))"
    by (rule sorted_wrt_butlast)
  moreover have "butlast (leaf_keys (top_node t)) = map (key_path (top_node t)) (entries t)"
    using well_formed_last_ptr [OF wf] by (simp add: leaf_keys_def map_butlast [symmetric])
  ultimately show "sorted_wrt visited_before (map (key_path (top_node t)) (entries t))"
    by simp
  then show "distinct (map (key_path (top_node t)) (entries t))"
    by (rule sorted_wrt_irrefl_distinct) (rule visited_before_irrefl)
qed

lemma well_formed_empty:
  assumes wf: "well_formed t"
  shows "trie_empty t \<longleftrightarrow> entries t = []"
proof -
  from wf obtain cs s where top: "children (top_node t) = cs @ [s]" "list_all inner_ok cs"
    by (rule well_formedE)
  have "list_all leafy cs"
    using top(2) by (auto simp: list_all_iff intro: inner_ok_leafy)
  then have "cs \<noteq> [] \<Longrightarrow> leaf_list 0 cs \<noteq> []"
    by (rule leafy_leaf_list)
  then show ?thesis
    using well_formed_leaf_ptrs(2) [OF wf top(1)] top(1)
    by (auto simp: trie_empty_def)
qed

lemma reachable_example_merged: "reachable example_merged"
proof -
  have "reachable_by legal example_two"
    using reachable_example_two by (simp add: reachable_def)
  moreover have "legal example_two (Advance [0] [2])"
    by code_simp
  moreover have "run (Advance [0] [2]) example_two = (Inr (), example_merged)"
    by code_simp
  ultimately show ?thesis
    unfolding reachable_def by (rule reach_step)
qed

lemma reachable_example_tie: "reachable example_tie"
proof -
  have "reachable_by legal example_two"
    using reachable_example_two by (simp add: reachable_def)
  moreover have "legal example_two (Insert [1, 3] 30)"
    by code_simp
  moreover have "run (Insert [1, 3] 30) example_two = (Inr (), example_tie)"
    by code_simp
  ultimately show ?thesis
    unfolding reachable_def by (rule reach_step)
qed

lemma unmerged_example_two: "reachable_by legal_unmerged example_two"
proof -
  have 0: "reachable_by legal_unmerged (trie_new :: (8 word, nat) trie)"
    by (rule reach_new)
  have "legal_unmerged (trie_new :: (8 word, nat) trie) (Insert [1] 10)"
    by code_simp
  moreover have "run (Insert [1] 10) (trie_new :: (8 word, nat) trie) = (Inr (), example_one)"
    by code_simp
  ultimately have 1: "reachable_by legal_unmerged example_one"
    using 0 by (intro reach_step [of legal_unmerged trie_new "Insert [1] 10" example_one])
  have "legal_unmerged example_one (Insert [1, 2] 20)"
    by code_simp
  moreover have "run (Insert [1, 2] 20) example_one = (Inr (), example_two)"
    by code_simp
  ultimately show ?thesis
    using 1 by (intro reach_step [of legal_unmerged example_one "Insert [1, 2] 20" example_two])
qed

subsection \<open>The keys and values under a node\<close>

lemma bindings_leaf_list:
  "drop i (children n) = ds \<Longrightarrow>
     map (\<lambda>p. (key_path n p, value_at n p)) (leaf_list i ds) = concat (map child_bindings ds)"
proof (induction ds arbitrary: i)
  case Nil
  show ?case by simp
next
  case (Cons d ds)
  then have i: "i < length (children n)"
    by (cases "i < length (children n)") auto
  then have "children n ! i # drop (Suc i) (children n) = d # ds"
    using Cons.prems by (simp add: Cons_nth_drop_Suc)
  then have d: "children n ! i = d" and ds: "drop (Suc i) (children n) = ds"
    by auto
  have "map (\<lambda>p. (key_path n p, value_at n p)) (map ((#) i) (leaf_ptrs d)) = child_bindings d"
    using i d by (simp add: child_bindings_def bindings_def value_at_def comp_def)
  then show ?case
    using Cons.IH [OF ds] by simp
qed

lemma bindings_eq:
  "bindings n =
     concat (map child_bindings (children n)) @ (if is_leaf n then [([], data_second n)] else [])"
  using bindings_leaf_list [of 0 n "children n"]
  by (simp add: bindings_def [of n] leaf_ptrs_eq [of n] value_at_def)

lemma filter_prefixed:
  "filter (\<lambda>(k', v). k' \<noteq> a # kq) (map (\<lambda>(k, v). (s # k, v)) bs) =
     (if s = a then map (\<lambda>(k, v). (s # k, v)) (filter (\<lambda>(k', v). k' \<noteq> kq) bs)
      else map (\<lambda>(k, v). (s # k, v)) bs)"
  by (induction bs) auto

lemma filter_child_bindings_other:
  "data_first c \<noteq> a \<Longrightarrow> filter (\<lambda>(k', v). k' \<noteq> a # kq) (child_bindings c) = child_bindings c"
  by (simp add: child_bindings_def filter_prefixed)

lemma filter_children_other:
  "(\<And>c. c \<in> set cs \<Longrightarrow> data_first c \<noteq> a) \<Longrightarrow>
     filter (\<lambda>(k', v). k' \<noteq> a # kq) (concat (map child_bindings cs)) = concat (map child_bindings cs)"
  by (induction cs) (simp_all add: filter_child_bindings_other)

lemma filter_children_Nil:
  "filter (\<lambda>(k', v). k' \<noteq> []) (concat (map child_bindings cs)) = concat (map child_bindings cs)"
  by (induction cs) (auto simp: child_bindings_def filter_id_conv)

lemma other_symbols:
  fixes cs :: "('k::linorder, 'v) trie_node list"
  assumes "sorted_wrt (<) (map data_first cs)" and "i < length cs"
  shows "\<forall>c\<in>set (take i cs) \<union> set (drop (Suc i) cs). data_first c \<noteq> data_first (cs ! i)"
proof -
  have "sorted_wrt (<) (map data_first (take i cs @ cs ! i # drop (Suc i) cs))"
    using assms by (simp add: id_take_nth_drop [symmetric])
  then have a: "\<forall>x\<in>set (take i cs). data_first x < data_first (cs ! i)"
    and b: "\<forall>x\<in>set (drop (Suc i) cs). data_first (cs ! i) < data_first x"
    by (auto simp: sorted_wrt_append)
  show ?thesis
  proof
    fix c assume "c \<in> set (take i cs) \<union> set (drop (Suc i) cs)"
    then have "data_first c < data_first (cs ! i) \<or> data_first (cs ! i) < data_first c"
      using a b by blast
    then show "data_first c \<noteq> data_first (cs ! i)"
      by auto
  qed
qed

lemma bindings_replace_child:
  fixes cs :: "('k::linorder, 'v) trie_node list"
  assumes "sorted_wrt (<) (map data_first cs)" and "i < length cs"
    and "child_bindings c' = filter (\<lambda>(k', v). k' \<noteq> data_first (cs ! i) # kq) (child_bindings (cs ! i))"
  shows "concat (map child_bindings (cs[i := c'])) =
     filter (\<lambda>(k', v). k' \<noteq> data_first (cs ! i) # kq) (concat (map child_bindings cs))"
proof -
  let ?P = "\<lambda>(k', v). k' \<noteq> data_first (cs ! i) # kq"
  have o: "\<forall>c\<in>set (take i cs) \<union> set (drop (Suc i) cs). data_first c \<noteq> data_first (cs ! i)"
    using assms(1,2) by (rule other_symbols)
  have "concat (map child_bindings cs)
      = concat (map child_bindings (take i cs @ cs ! i # drop (Suc i) cs))"
    using assms(2) by (simp add: id_take_nth_drop [symmetric])
  then have "filter ?P (concat (map child_bindings cs))
      = filter ?P (concat (map child_bindings (take i cs))) @ filter ?P (child_bindings (cs ! i))
        @ filter ?P (concat (map child_bindings (drop (Suc i) cs)))"
    by simp
  also have "\<dots> = concat (map child_bindings (take i cs)) @ child_bindings c'
        @ concat (map child_bindings (drop (Suc i) cs))"
    using o assms(3) by (simp add: filter_children_other)
  also have "\<dots> = concat (map child_bindings (take i cs @ c' # drop (Suc i) cs))"
    by simp
  also have "take i cs @ c' # drop (Suc i) cs = cs[i := c']"
    using assms(2) by (simp add: upd_conv_take_nth_drop)
  finally show ?thesis by simp
qed

lemma bindings_remove_child:
  fixes cs :: "('k::linorder, 'v) trie_node list"
  assumes "sorted_wrt (<) (map data_first cs)" and "i < length cs"
    and "filter (\<lambda>(k', v). k' \<noteq> data_first (cs ! i) # kq) (child_bindings (cs ! i)) = []"
  shows "concat (map child_bindings (remove_child cs i)) =
     filter (\<lambda>(k', v). k' \<noteq> data_first (cs ! i) # kq) (concat (map child_bindings cs))"
proof -
  let ?P = "\<lambda>(k', v). k' \<noteq> data_first (cs ! i) # kq"
  have o: "\<forall>c\<in>set (take i cs) \<union> set (drop (Suc i) cs). data_first c \<noteq> data_first (cs ! i)"
    using assms(1,2) by (rule other_symbols)
  have "concat (map child_bindings cs)
      = concat (map child_bindings (take i cs @ cs ! i # drop (Suc i) cs))"
    using assms(2) by (simp add: id_take_nth_drop [symmetric])
  then have "filter ?P (concat (map child_bindings cs))
      = filter ?P (concat (map child_bindings (take i cs))) @ filter ?P (child_bindings (cs ! i))
        @ filter ?P (concat (map child_bindings (drop (Suc i) cs)))"
    by simp
  also have "\<dots> = concat (map child_bindings (take i cs))
        @ concat (map child_bindings (drop (Suc i) cs))"
    using o assms(3) by (simp add: filter_children_other)
  finally show ?thesis
    by (simp add: remove_child_def)
qed

lemma filter_child_bindings_same:
  "filter (\<lambda>(k', v). k' \<noteq> data_first c # kq) (child_bindings c) =
     map (\<lambda>(k, v). (data_first c # k, v)) (filter (\<lambda>(k', v). k' \<noteq> kq) (bindings c))"
  by (simp add: child_bindings_def filter_prefixed)

lemma bindings_demote:
  "sorted_node n \<Longrightarrow> node_at n p = Some m \<Longrightarrow>
     bindings (update_at (set_is_leaf False) p n) = filter (\<lambda>(k', v). k' \<noteq> key_path n p) (bindings n)"
proof (induction p arbitrary: n)
  case Nil
  show ?case
    by (simp add: bindings_eq [of n] bindings_eq [of "set_is_leaf _ _"] filter_children_Nil)
next
  case (Cons i p)
  then have i: "i < length (children n)" and m: "node_at (children n ! i) p = Some m"
    by (auto split: if_splits)
  let ?c' = "update_at (set_is_leaf False) p (children n ! i)"
  have d: "data_first ?c' = data_first (children n ! i)"
    by (simp add: update_at_data_first)
  have "bindings ?c' = filter (\<lambda>(k', v). k' \<noteq> key_path (children n ! i) p) (bindings (children n ! i))"
    using Cons.prems(1) i m by (intro Cons.IH sorted_node_child)
  then have "child_bindings ?c' =
      filter (\<lambda>(k', v). k' \<noteq> data_first (children n ! i) # key_path (children n ! i) p)
        (child_bindings (children n ! i))"
    using d by (simp add: filter_child_bindings_same) (simp add: child_bindings_def)
  then have "concat (map child_bindings ((children n)[i := ?c'])) =
     filter (\<lambda>(k', v). k' \<noteq> data_first (children n ! i) # key_path (children n ! i) p)
       (concat (map child_bindings (children n)))"
    using Cons.prems(1) i by (intro bindings_replace_child sorted_node_children)
  then show ?case
    using i by (simp add: bindings_eq [of n] bindings_eq [of "set_children _ _"])
qed

lemma bindings_prune:
  "sorted_node n \<Longrightarrow> node_at n r = Some m \<Longrightarrow> is_leaf m \<Longrightarrow> children m = [] \<Longrightarrow>
     (case prune n r of None \<Rightarrow> [] | Some n' \<Rightarrow> bindings n')
       = filter (\<lambda>(k', v). k' \<noteq> key_path n r) (bindings n)"
proof (induction r arbitrary: n)
  case Nil
  then show ?case
    by (simp add: bindings_eq)
next
  case (Cons i r)
  then have i: "i < length (children n)" and m: "node_at (children n ! i) r = Some m"
    by (auto split: if_splits)
  let ?P = "\<lambda>(k', v). k' \<noteq> data_first (children n ! i) # key_path (children n ! i) r"
  have srt: "sorted_wrt (<) (map data_first (children n))"
    using Cons.prems(1) by (rule sorted_node_children)
  have ih: "(case prune (children n ! i) r of None \<Rightarrow> [] | Some n' \<Rightarrow> bindings n')
       = filter (\<lambda>(k', v). k' \<noteq> key_path (children n ! i) r) (bindings (children n ! i))"
    using Cons.prems i m by (intro Cons.IH sorted_node_child)
  have tail: "filter ?P (if is_leaf n then [([], data_second n)] else [])
      = (if is_leaf n then [([], data_second n)] else [])"
    by simp
  show ?case
  proof (cases "prune (children n ! i) r")
    case None
    then have e: "filter ?P (child_bindings (children n ! i)) = []"
      using ih by (simp add: filter_child_bindings_same)
    show ?thesis
    proof (cases "\<not> is_leaf n \<and> length (children n) \<le> 1")
      case True
      then obtain c where c: "children n = [c]"
        using i by (cases "children n") auto
      then have "children n ! i = c"
        using i by simp
      then show ?thesis
        using None True e c by (simp add: bindings_eq [of n])
    next
      case False
      have "concat (map child_bindings (remove_child (children n) i)) =
          filter ?P (concat (map child_bindings (children n)))"
        using srt i e by (rule bindings_remove_child)
      moreover have "prune n (i # r) = Some (set_children (remove_child (children n) i) n)"
        using None False by auto
      ultimately show ?thesis
        using tail
        by (simp add: bindings_eq [of n] bindings_eq [of "set_children _ _"] del: filter.simps prune.simps)
    qed
  next
    case (Some c')
    have "sorted_node (children n ! i)"
      using Cons.prems(1) i by (rule sorted_node_child)
    have d: "data_first c' = data_first (children n ! i)"
    proof -
      obtain q where "erase_climb (children n ! i) r = Inr q"
        and "c' = update_at (\<lambda>parent. set_children (remove_child (children parent) (last q)) parent)
                 (butlast q) (children n ! i)"
        using erase_climb_eq_prune [OF m] Some by (auto split: sum.splits)
      then show ?thesis
        by (simp add: update_at_data_first)
    qed
    have "child_bindings c' = filter ?P (child_bindings (children n ! i))"
      using ih Some d by (simp add: filter_child_bindings_same) (simp add: child_bindings_def)
    then have "concat (map child_bindings ((children n)[i := c'])) =
        filter ?P (concat (map child_bindings (children n)))"
      using srt i by (intro bindings_replace_child)
    moreover have "prune n (i # r) = Some (set_children ((children n)[i := c']) n)"
      using Some by simp
    ultimately show ?thesis
      using tail
      by (simp add: bindings_eq [of n] bindings_eq [of "set_children _ _"] del: filter.simps prune.simps)
  qed
qed

subsection \<open>erase removes one binding\<close>

lemma erase_bindings:
  assumes wf: "well_formed t" and e: "at_entry t p" and er: "trie_erase t p = (Inr (), t')"
  shows "bindings (top_node t') =
     filter (\<lambda>(k', v). k' \<noteq> key_path (top_node t) p) (bindings (top_node t))"
proof -
  from e obtain m where m: "node_at (top_node t) p = Some m" "is_leaf m"
    by (auto simp: at_entry_def split: option.splits)
  have srt: "sorted_node (top_node t)"
    using wf by (simp add: well_formed_def)
  show ?thesis
  proof (cases "children m = []")
    case True
    from erase_climb_ok [OF wf e] obtain q where q: "erase_climb (top_node t) p = Inr q"
      by blast
    then have "prune (top_node t) p = Some (top_node t')"
      using erase_climb_eq_prune [OF m(1)] er m True by (auto simp: trie_erase_def)
    then show ?thesis
      using bindings_prune [OF srt m True] by simp
  next
    case False
    then have "top_node t' = update_at (set_is_leaf False) p (top_node t)"
      using er m by (auto simp: trie_erase_def)
    then show ?thesis
      using bindings_demote [OF srt m(1)] by simp
  qed
qed

lemma well_formed_bindings:
  assumes "well_formed t"
  shows "bindings (top_node t) =
     map (\<lambda>p. (key_path (top_node t) p, value_at (top_node t) p)) (entries t)
     @ [(key_path (top_node t) (trie_end t), value_at (top_node t) (trie_end t))]"
  using well_formed_last_ptr [OF assms] by (simp add: bindings_def)

lemma distinct_leaf_keys: "sorted_node n \<Longrightarrow> distinct (leaf_keys n)"
  by (rule sorted_wrt_irrefl_distinct [OF sorted_leaf_keys]) (simp_all add: visited_before_irrefl)

lemma entry_key_not_end:
  assumes wf: "well_formed t" and p: "p \<in> set (entries t)"
  shows "key_path (top_node t) p \<noteq> key_path (top_node t) (trie_end t)"
proof -
  have "distinct (map (key_path (top_node t)) (leaf_ptrs (top_node t)))"
    using wf distinct_leaf_keys [of "top_node t"] by (simp add: well_formed_def leaf_keys_def)
  then have "inj_on (key_path (top_node t)) (set (leaf_ptrs (top_node t)))"
    by (simp add: distinct_map)
  moreover have "p \<in> set (leaf_ptrs (top_node t))" "p \<noteq> trie_end t"
    using p by (auto simp: entries_def)
  moreover have "trie_end t \<in> set (leaf_ptrs (top_node t))"
    using well_formed_last_ptr [OF wf] by simp
  ultimately show ?thesis
    by (auto dest: inj_onD)
qed

lemma erase_entry_bindings:
  assumes wf: "well_formed t" and e: "at_entry t p" and er: "trie_erase t p = (Inr (), t')"
    and wf': "well_formed t'"
  shows "map (\<lambda>q. (key_path (top_node t') q, value_at (top_node t') q)) (entries t') =
     filter (\<lambda>(k', v). k' \<noteq> key_path (top_node t) p)
       (map (\<lambda>q. (key_path (top_node t) q, value_at (top_node t) q)) (entries t))"
proof -
  have "p \<in> set (entries t)"
    using e by (simp add: at_entry_in_entries)
  then have ne: "key_path (top_node t) (trie_end t) \<noteq> key_path (top_node t) p"
    using entry_key_not_end [OF wf] by metis
  have "map (\<lambda>q. (key_path (top_node t') q, value_at (top_node t') q)) (entries t')
      @ [(key_path (top_node t') (trie_end t'), value_at (top_node t') (trie_end t'))]
    = filter (\<lambda>(k', v). k' \<noteq> key_path (top_node t) p)
       (map (\<lambda>q. (key_path (top_node t) q, value_at (top_node t) q)) (entries t))
      @ [(key_path (top_node t) (trie_end t), value_at (top_node t) (trie_end t))]"
    using erase_bindings [OF wf e er] ne
    by (simp add: well_formed_bindings [OF wf] well_formed_bindings [OF wf'])
  then show ?thesis
    by simp
qed

lemma find_entry:
  assumes wf: "well_formed t" and p: "p \<in> set (entries t)"
  shows "trie_find t (key_path (top_node t) p) = p"
proof -
  have srt: "sorted_node (top_node t)" and nl: "\<not> is_leaf (top_node t)"
    using wf by (simp_all add: well_formed_def)
  from p have l: "leaf_at (top_node t) p"
    by (auto simp: entries_def in_leaf_ptrs_iff)
  then obtain m where m: "node_at (top_node t) p = Some m"
    by (auto simp: leaf_at_def split: option.splits)
  have "p \<noteq> []"
    using l nl by auto
  then have "key_path (top_node t) p \<noteq> []"
    by (metis length_key_path length_0_conv)
  moreover have "advance_walk (top_node t) (key_path (top_node t) p) = Some p"
    using srt m by (rule advance_walk_key_path)
  ultimately show ?thesis
    using l by (simp add: trie_find_def find_walk_eq)
qed

lemma entry_binding_iff:
  assumes wf: "well_formed t"
  shows "(k, v) \<in> set (map (\<lambda>q. (key_path (top_node t) q, value_at (top_node t) q)) (entries t))
     \<longleftrightarrow> stored t k \<and> iter_value t (trie_find t k) = Inr v"
proof
  assume "(k, v) \<in> set (map (\<lambda>q. (key_path (top_node t) q, value_at (top_node t) q)) (entries t))"
  then obtain p where p: "p \<in> set (entries t)" "k = key_path (top_node t) p"
      "v = value_at (top_node t) p"
    by auto
  have f: "trie_find t k = p"
    using find_entry [OF wf p(1)] p(2) by simp
  have "stored t k"
    using p(1,2) by (auto simp: stored_entries [OF wf])
  moreover have "iter_value t p = Inr v"
    using p(1,3) by (auto simp: iter_value_def value_at_def entries_def in_leaf_ptrs_iff leaf_at_def
        split: option.splits)
  ultimately show "stored t k \<and> iter_value t (trie_find t k) = Inr v"
    using f by simp
next
  assume a: "stored t k \<and> iter_value t (trie_find t k) = Inr v"
  then obtain p where p: "p \<in> set (entries t)" "k = key_path (top_node t) p"
    by (auto simp: stored_entries [OF wf])
  have f: "trie_find t k = p"
    using find_entry [OF wf p(1)] p(2) by simp
  have "v = value_at (top_node t) p"
    using a f by (auto simp: iter_value_def value_at_def split: option.splits)
  then show "(k, v) \<in> set (map (\<lambda>q. (key_path (top_node t) q, value_at (top_node t) q)) (entries t))"
    using p by auto
qed

lemma stored_has_value:
  assumes wf: "well_formed t" and s: "stored t k"
  shows "\<exists>v. iter_value t (trie_find t k) = Inr v" and "at_entry t (trie_find t k)"
    and "key_path (top_node t) (trie_find t k) = k"
proof -
  from s obtain p where p: "p \<in> set (entries t)" "k = key_path (top_node t) p"
    by (auto simp: stored_entries [OF wf])
  have f: "trie_find t k = p"
    using find_entry [OF wf p(1)] p(2) by simp
  show "at_entry t (trie_find t k)"
    using p(1) f by (simp add: at_entry_in_entries)
  show "key_path (top_node t) (trie_find t k) = k"
    using p(2) f by simp
  show "\<exists>v. iter_value t (trie_find t k) = Inr v"
    using p(1) f by (auto simp: iter_value_def entries_def in_leaf_ptrs_iff leaf_at_def
        split: option.splits)
qed

section \<open>The claims\<close>

text \<open>
  C1.  For every non-empty key \<open>k\<close> whose symbols are all less than the greatest
  symbol and that is not stored, and every value \<open>v\<close>, \<open>insert(k, v)\<close> succeeds on a
  reachable container; afterwards \<open>find(k)\<close> is the iterator that \<open>insert\<close> returned,
  it is not \<open>end()\<close>, its \<open>value()\<close> is \<open>v\<close>, and \<open>size()\<close> is one more than before.
\<close>

theorem insert_then_find:
  assumes "reachable t" and "k \<noteq> []" and "valid_key k" and "\<not> stored t k"
  shows "\<exists>p t'. trie_insert t (k, v) = (Inr p, t') \<and> trie_find t' k = p \<and> stored t' k \<and>
     iter_value t' (trie_find t' k) = Inr (Some v) \<and> size_count t' = size_count t + 1"
proof -
  have wf: "well_formed t"
    using assms(1) by (rule reachable_well_formed)
  then have srt: "sorted_node (top_node t)"
    by (simp add: well_formed_def)
  have "\<not> (\<exists>p. advance_walk (top_node t) k = Some p \<and> leaf_at (top_node t) p)"
    using stored_iff [OF wf assms(3)] assms(2,4) by simp
  then have "\<forall>e. fst (trie_insert t (k, v)) \<noteq> Inl e"
    using assms(2) by (simp add: trie_insert_error)
  then obtain p t' where ins: "trie_insert t (k, v) = (Inr p, t')"
    by (cases "trie_insert t (k, v)"; cases "fst (trie_insert t (k, v))") auto
  have wf': "well_formed t'"
    using wf assms(3) ins by (rule well_formed_insert)
  have f: "trie_find t' k = p" "iter_value t' p = Inr (Some v)" "size_count t' = size_count t + 1"
    using trie_insert_ok [OF srt ins] by auto
  obtain new_top where w: "insert_walk (top_node t) k v = Inr (new_top, p)"
    and t': "top_node t' = new_top"
    using ins by (auto simp: trie_insert_def split: if_splits sum.splits)
  from insert_walk_walk [OF srt w] have "advance_walk (top_node t') k = Some p \<and> leaf_at (top_node t') p"
    by (auto simp: t' leaf_at_def)
  then have "stored t' k"
    using stored_iff [OF wf' assms(3)] assms(2) by blast
  then show ?thesis
    using ins f by simp
qed

theorem insert_then_find_witness:
  "reachable example_one \<and> [1, 2] \<noteq> ([] :: 8 word list) \<and> valid_key [1, 2 :: 8 word] \<and>
   \<not> stored example_one [1, 2] \<and>
   (\<exists>p t'. trie_insert example_one ([1, 2], 20) = (Inr p, t') \<and> trie_find t' [1, 2] = p \<and>
      stored t' [1, 2] \<and> iter_value t' (trie_find t' [1, 2]) = Inr (Some 20) \<and>
      size_count t' = size_count example_one + 1)"
proof -
  have v: "valid_key [1, 2 :: 8 word]" by code_simp
  have s: "\<not> stored example_one [1, 2]" by code_simp
  show ?thesis
    using insert_then_find [OF reachable_example_one _ v s, of 20] reachable_example_one v s
    by simp
qed

text \<open>
  C4.  On a reachable container \<open>find(k)\<close> returns the pointer of the node reached by
  following the symbols of \<open>k\<close> from \<open>top_\<close>, if that walk succeeds and ends at a node
  whose leaf flag is set; it returns \<open>end()\<close> when a symbol has no matching child and
  when the walk ends at a node whose leaf flag is not set.
\<close>

theorem find_follows_key:
  assumes "reachable t"
  shows "trie_find t k =
     (case spec_walk (top_node t) k of
        None \<Rightarrow> trie_end t
      | Some p \<Rightarrow> if leaf_at (top_node t) p then p else trie_end t)"
proof -
  have wf: "well_formed t"
    using assms by (rule reachable_well_formed)
  then have "sorted_node (top_node t)" "\<not> is_leaf (top_node t)"
    by (simp_all add: well_formed_def)
  then show ?thesis
    by (cases "k = []")
      (auto simp: trie_find_def find_walk_eq spec_walk_advance_walk split: option.splits)
qed

theorem find_follows_key_witness:
  "reachable example_two \<and>
   trie_find example_two [1, 2] =
     (case spec_walk (top_node example_two) [1, 2] of
        None \<Rightarrow> trie_end example_two
      | Some p \<Rightarrow> if leaf_at (top_node example_two) p then p else trie_end example_two) \<and>
   trie_find example_two [1, 2] = [0, 0] \<and> trie_find example_two [1, 3] = trie_end example_two"
proof -
  have "trie_find example_two [1, 2] = [0, 0]" by code_simp
  moreover have "trie_find example_two [1, 3] = trie_end example_two" by code_simp
  ultimately show ?thesis
    using find_follows_key [OF reachable_example_two, of "[1, 2]"] reachable_example_two
    by simp
qed

text \<open>
  C5.  On a reachable container \<open>insert(k, v)\<close> throws "empty key" exactly when \<open>k\<close> is
  empty, and "duplicate key" exactly when \<open>k\<close> is not empty and the walk along \<open>k\<close>
  ends at a node whose leaf flag is set; for a valid key that is exactly when \<open>k\<close> is
  stored.  In every other case it returns an iterator.
\<close>

theorem insert_errors:
  assumes "reachable t"
  shows "(fst (trie_insert t (k, v)) = Inl EmptyKey \<longleftrightarrow> k = []) \<and>
     (fst (trie_insert t (k, v)) = Inl DuplicateKey \<longleftrightarrow>
        k \<noteq> [] \<and> (\<exists>p. spec_walk (top_node t) k = Some p \<and> leaf_at (top_node t) p)) \<and>
     (valid_key k \<longrightarrow> (fst (trie_insert t (k, v)) = Inl DuplicateKey \<longleftrightarrow> stored t k)) \<and>
     (fst (trie_insert t (k, v)) \<in> {Inl EmptyKey, Inl DuplicateKey} \<or>
        (\<exists>p. fst (trie_insert t (k, v)) = Inr p))"
proof -
  have wf: "well_formed t"
    using assms by (rule reachable_well_formed)
  then have srt: "sorted_node (top_node t)"
    by (simp add: well_formed_def)
  have 1: "fst (trie_insert t (k, v)) = Inl EmptyKey \<longleftrightarrow> k = []"
    by (simp add: trie_insert_error)
  have 2: "fst (trie_insert t (k, v)) = Inl DuplicateKey \<longleftrightarrow>
        k \<noteq> [] \<and> (\<exists>p. spec_walk (top_node t) k = Some p \<and> leaf_at (top_node t) p)"
    by (simp add: trie_insert_error spec_walk_advance_walk [OF srt])
  have 3: "valid_key k \<longrightarrow> (fst (trie_insert t (k, v)) = Inl DuplicateKey \<longleftrightarrow> stored t k)"
    using stored_iff [OF wf, of k] by (auto simp: trie_insert_error)
  have 4: "fst (trie_insert t (k, v)) \<in> {Inl EmptyKey, Inl DuplicateKey} \<or>
        (\<exists>p. fst (trie_insert t (k, v)) = Inr p)"
    using trie_insert_error [of t k v] by (cases "fst (trie_insert t (k, v))") auto
  from 1 2 3 4 show ?thesis by blast
qed

theorem insert_errors_witness:
  "reachable example_two \<and>
   fst (trie_insert example_two ([], 5)) = Inl EmptyKey \<and>
   fst (trie_insert example_two ([1, 2], 5)) = Inl DuplicateKey \<and>
   spec_walk (top_node example_two) [1, 2] = Some [0, 0] \<and>
   leaf_at (top_node example_two) [0, 0] \<and> valid_key [1, 2 :: 8 word] \<and>
   stored example_two [1, 2] \<and>
   fst (trie_insert example_two ([1, 3], 5)) = Inr [0, 1]"
proof -
  have 1: "fst (trie_insert example_two ([], 5)) = Inl EmptyKey"
    using insert_errors [OF reachable_example_two, of "[]" 5] by simp
  have 2: "valid_key [1, 2 :: 8 word]" by code_simp
  have 3: "spec_walk (top_node example_two) [1, 2] = Some [0, 0]" by code_simp
  have 4: "leaf_at (top_node example_two) [0, 0]" by code_simp
  have 5: "fst (trie_insert example_two ([1, 2], 5)) = Inl DuplicateKey"
    using insert_errors [OF reachable_example_two, of "[1, 2]" 5] 3 4 by simp
  have 6: "stored example_two [1, 2]"
    using insert_errors [OF reachable_example_two, of "[1, 2]" 5] 2 5 by simp
  have 7: "fst (trie_insert example_two ([1, 3], 5)) = Inr [0, 1]" by code_simp
  show ?thesis
    using reachable_example_two 1 2 3 4 5 6 7 by blast
qed

text \<open>
  C6.  A call that throws leaves everything as it was: \<open>insert\<close> the container,
  \<open>advance\<close> the container and the iterator, \<open>operator++\<close> and \<open>operator--\<close> the
  iterator (they have no write to a node, so the container is not among their
  results).
\<close>

theorem failing_calls_atomic:
  "(fst (trie_insert t d) = Inl e \<longrightarrow> snd (trie_insert t d) = t) \<and>
   (fst (iter_advance t iter sub_key) = Inl e \<longrightarrow> snd (iter_advance t iter sub_key) = (t, iter)) \<and>
   (fst (iter_incr t iter) = Inl e \<longrightarrow> snd (iter_incr t iter) = iter) \<and>
   (fst (iter_decr t iter) = Inl e \<longrightarrow> snd (iter_decr t iter) = iter)"
proof (intro conjI impI)
  assume "fst (trie_insert t d) = Inl e"
  then show "snd (trie_insert t d) = t"
    by (auto simp: trie_insert_def split: if_splits sum.splits)
next
  assume "fst (iter_advance t iter sub_key) = Inl e"
  then show "snd (iter_advance t iter sub_key) = (t, iter)"
    by (auto simp: iter_advance_def split: if_splits option.splits)
next
  assume "fst (iter_incr t iter) = Inl e"
  then show "snd (iter_incr t iter) = iter"
    by (auto simp: iter_incr_def split: sum.splits)
next
  assume "fst (iter_decr t iter) = Inl e"
  then show "snd (iter_decr t iter) = iter"
    by (auto simp: iter_decr_def split: sum.splits)
qed

theorem failing_calls_atomic_witness:
  "fst (trie_insert example_two ([], 5)) = Inl EmptyKey \<and>
   snd (trie_insert example_two ([], 5)) = example_two \<and>
   fst (trie_insert example_two ([1, 2], 5)) = Inl DuplicateKey \<and>
   snd (trie_insert example_two ([1, 2], 5)) = example_two \<and>
   fst (iter_advance example_two [0] []) = Inl EmptySubkey \<and>
   snd (iter_advance example_two [0] []) = (example_two, [0]) \<and>
   fst (iter_advance example_two [0] [7]) = Inl NoSuchPrefix \<and>
   snd (iter_advance example_two [0] [7]) = (example_two, [0]) \<and>
   fst (iter_incr example_two (trie_end example_two)) = Inl IncrementEnd \<and>
   snd (iter_incr example_two (trie_end example_two)) = trie_end example_two \<and>
   fst (iter_decr example_two (trie_begin example_two)) = Inl DecrementBegin \<and>
   snd (iter_decr example_two (trie_begin example_two)) = trie_begin example_two"
proof -
  have 1: "fst (trie_insert example_two ([], 5)) = Inl EmptyKey" by code_simp
  have 2: "fst (trie_insert example_two ([1, 2], 5)) = Inl DuplicateKey" by code_simp
  have 3: "fst (iter_advance example_two [0] []) = Inl EmptySubkey" by code_simp
  have 4: "fst (iter_advance example_two [0] [7]) = Inl NoSuchPrefix" by code_simp
  have 5: "fst (iter_incr example_two (trie_end example_two)) = Inl IncrementEnd" by code_simp
  have 6: "fst (iter_decr example_two (trie_begin example_two)) = Inl DecrementBegin" by code_simp
  show ?thesis
    using 1 2 3 4 5 6
      failing_calls_atomic [where t = example_two and d = "([], 5)" and e = EmptyKey]
      failing_calls_atomic [where t = example_two and d = "([1, 2], 5)" and e = DuplicateKey]
      failing_calls_atomic [where t = example_two and iter = "[0]" and sub_key = "[]"
        and e = EmptySubkey]
      failing_calls_atomic [where t = example_two and iter = "[0]" and sub_key = "[7]"
        and e = NoSuchPrefix]
      failing_calls_atomic [where t = example_two and iter = "trie_end example_two"
        and e = IncrementEnd]
      failing_calls_atomic [where t = example_two and iter = "trie_begin example_two"
        and e = DecrementBegin]
    by simp
qed

text \<open>
  C8.  In every reachable container the children of every node are strictly sorted
  by symbol (so no symbol occurs twice) and the last child of \<open>top_\<close> is the node of
  \<open>end()\<close> with the greatest symbol.  Every call keeps the children sorted, whatever
  its arguments, and so does \<open>push_child\<close> at any node for a symbol that
  \<open>find_by_key\<close> did not find there.
\<close>

theorem children_stay_sorted:
  assumes "reachable t"
  shows "sorted_node (top_node t) \<and> children (top_node t) \<noteq> [] \<and>
     is_sentinel (last (children (top_node t))) \<and>
     sorted_node (top_node (snd (run op t))) \<and>
     (node_at (top_node t) p = Some n \<and> find_by_key (children n) (data_first c) = None \<longrightarrow>
        sorted_wrt (<) (map data_first (fst (push_child (children n) c))))"
proof -
  have wf: "well_formed t"
    using assms by (rule reachable_well_formed)
  then have srt: "sorted_node (top_node t)"
    by (simp add: well_formed_def)
  have "sorted_wrt (<) (map data_first (fst (push_child (children n) c)))"
    if n: "node_at (top_node t) p = Some n" and f: "find_by_key (children n) (data_first c) = None"
  proof -
    have s: "sorted_wrt (<) (map data_first (children n))"
      using sorted_node_at [OF srt n] by (rule sorted_node_children)
    then have "data_first c \<notin> data_first ` set (children n)"
      using f find_by_key_None_iff by blast
    from push_child_sorted [OF s this] show ?thesis by auto
  qed
  then show ?thesis
    using wf sorted_run [OF srt, of op] by (auto simp: well_formed_def)
qed

theorem children_stay_sorted_witness:
  "reachable example_two \<and> sorted_node (top_node example_two) \<and>
   children (top_node example_two) \<noteq> [] \<and>
   is_sentinel (last (children (top_node example_two))) \<and>
   sorted_node (top_node (snd (run (Insert [0, 9] 3) example_two))) \<and>
   node_at (top_node example_two) [] = Some (top_node example_two) \<and>
   find_by_key (children (top_node example_two)) (data_first (Node 7 None False [])) = None \<and>
   sorted_wrt (<) (map data_first
     (fst (push_child (children (top_node example_two)) (Node 7 None False []))))"
proof -
  have "find_by_key (children (top_node example_two)) (data_first (Node 7 (None :: nat option) False [])) = None"
    by code_simp
  then show ?thesis
    using children_stay_sorted [OF reachable_example_two, of "Insert [0, 9] 3" "[]"
        "top_node example_two" "Node 7 None False []"] reachable_example_two
    by simp
qed

text \<open>
  C10.  When \<open>erase\<close> is called on a reachable container with an iterator at a stored
  entry whose node has no children, the climb ends without reading through a null
  \<open>parent_\<close>: it stops at a node on the way from \<open>top_\<close> to the entry that is not
  \<open>top_\<close> itself.  \<open>top_\<close> has at least two children, \<open>erase\<close> returns, and the node of
  \<open>end()\<close> is still the last child of \<open>top_\<close>.
\<close>

theorem erase_climb_stops_below_top:
  assumes "reachable t" and "at_entry t iter" and "node_at (top_node t) iter = Some n"
    and "children n = []"
  shows "\<exists>node t'. erase_climb (top_node t) iter = Inr node \<and> node \<noteq> [] \<and> prefix node iter \<and>
     2 \<le> length (children (top_node t)) \<and> trie_erase t iter = (Inr (), t') \<and>
     children (top_node t') \<noteq> [] \<and> is_sentinel (last (children (top_node t')))"
proof -
  have wf: "well_formed t"
    using assms(1) by (rule reachable_well_formed)
  from erase_climb_ok [OF wf assms(2)] obtain node where
    c: "erase_climb (top_node t) iter = Inr node" by blast
  from well_formed_erase [OF wf assms(2)] obtain t' where
    e: "trie_erase t iter = (Inr (), t')" "well_formed t'" by blast
  from wf assms(2) obtain cs s i r where "children (top_node t) = cs @ [s]" "i < length cs"
    by (rule at_entryD)
  then have "2 \<le> length (children (top_node t))" by simp
  then show ?thesis
    using c e erase_climb_not_Nil [OF c] erase_climb_prefix [OF c]
    by (auto simp: well_formed_def)
qed

theorem erase_climb_stops_below_top_witness:
  "reachable example_two \<and> at_entry example_two [0, 0] \<and>
   node_at (top_node example_two) [0, 0] = Some (Node 2 (Some 20) True []) \<and>
   children (Node 2 (Some 20) True [] :: (8 word, nat) trie_node) = [] \<and>
   (\<exists>node t'. erase_climb (top_node example_two) [0, 0] = Inr node \<and> node \<noteq> [] \<and>
      prefix node [0, 0] \<and> 2 \<le> length (children (top_node example_two)) \<and>
      trie_erase example_two [0, 0] = (Inr (), t') \<and> children (top_node t') \<noteq> [] \<and>
      is_sentinel (last (children (top_node t'))))"
proof -
  have a: "at_entry example_two [0, 0]" by code_simp
  have n: "node_at (top_node example_two) [0, 0] = Some (Node 2 (Some 20) True [])" by code_simp
  show ?thesis
    using erase_climb_stops_below_top [OF reachable_example_two a n] reachable_example_two a n
    by simp
qed

text \<open>
  C2 as stated fails: in \<open>example_two\<close> the keys \<open>{1}\<close> and \<open>{1, 2}\<close> are stored, and the
  traversal from \<open>begin()\<close> visits \<open>{1, 2}\<close> before \<open>{1}\<close>, which is not ascending in the
  lexicographic order.
\<close>

theorem iteration_not_lexicographic:
  "reachable example_two \<and> stored example_two [1] \<and> stored example_two [1, 2] \<and>
   forward_keys example_two = Some (Inr [[1, 2], [1]]) \<and>
   lex_less [1] [1, 2 :: 8 word] \<and> \<not> sorted_wrt lex_less [[1, 2], [1 :: 8 word]]"
proof -
  have "stored example_two [1]" "stored example_two [1, 2]"
    by code_simp+
  moreover have "forward_keys example_two = Some (Inr [[1, 2], [1]])"
    by code_simp
  moreover have "lex_less [1] [1, 2 :: 8 word]" "\<not> sorted_wrt lex_less [[1, 2], [1 :: 8 word]]"
    by (simp_all add: lex_less_def)
  ultimately show ?thesis
    using reachable_example_two by simp
qed

text \<open>
  C2, amended.  On every reachable container the traversal with \<open>operator++\<close> from
  \<open>begin()\<close> until \<open>end()\<close> ends and visits every stored key exactly once, in the order
  \<open>visited_before\<close>: symbol by symbol as in the lexicographic order, but a key that
  is a proper prefix of another comes after it.  The traversal with \<open>operator--\<close> from
  \<open>end()\<close> back to \<open>begin()\<close> visits the reverse of that sequence.
\<close>

theorem iteration_visits_post_order:
  assumes "reachable t"
  shows "\<exists>ks. forward_keys t = Some (Inr ks) \<and> backward_keys t = Some (Inr (rev ks)) \<and>
     distinct ks \<and> set ks = {k. stored t k} \<and> sorted_wrt visited_before ks \<and>
     (\<forall>k k'. visited_before k k' \<longleftrightarrow> strict_prefix k' k \<or> (\<not> prefix k k' \<and> lex_less k k'))"
proof -
  have wf: "well_formed t"
    using assms by (rule reachable_well_formed)
  let ?ks = "map (key_path (top_node t)) (entries t)"
  have "set ?ks = {k. stored t k}"
    using stored_entries [OF wf] by blast
  then show ?thesis
    using forward_keys_correct [OF wf] backward_keys_correct [OF wf] well_formed_keys [OF wf]
      visited_before_iff
    by (intro exI [of _ ?ks]) blast
qed

theorem iteration_visits_post_order_witness:
  "reachable example_two \<and> forward_keys example_two = Some (Inr [[1, 2], [1]]) \<and>
   backward_keys example_two = Some (Inr (rev [[1, 2], [1]])) \<and>
   distinct [[1, 2], [1 :: 8 word]] \<and> set [[1, 2], [1]] = {k. stored example_two k} \<and>
   sorted_wrt visited_before [[1, 2], [1 :: 8 word]]"
proof -
  have f: "forward_keys example_two = Some (Inr [[1, 2], [1]])"
    by code_simp
  from iteration_visits_post_order [OF reachable_example_two] obtain ks where
    ks: "forward_keys example_two = Some (Inr ks)" "backward_keys example_two = Some (Inr (rev ks))"
      "distinct ks" "set ks = {k. stored example_two k}" "sorted_wrt visited_before ks"
    by blast
  from ks(1) f have "ks = [[1, 2], [1]]"
    by simp
  then show ?thesis
    using ks f reachable_example_two by simp
qed

text \<open>
  C7 as stated fails: \<open>example_merged\<close> is reached from \<open>example_two\<close> by \<open>advance\<close> on
  the iterator at \<open>{1}\<close> with the subkey \<open>{2}\<close>, which lands on the entry \<open>{1, 2}\<close>.  One
  leaf flag besides that of the sentinel is left, and \<open>size()\<close> is still 2.
\<close>

theorem advance_breaks_size:
  "reachable example_two \<and> at_entry example_two [0] \<and>
   iter_advance example_two [0] [2] = (Inr (), example_merged, [0, 0]) \<and>
   reachable example_merged \<and> size_count example_merged = 2 \<and> entry_count example_merged = 1"
proof -
  have "at_entry example_two [0]"
    by code_simp
  moreover have "iter_advance example_two [0] [2] = (Inr (), example_merged, [0, 0])"
    by code_simp
  moreover have "size_count example_merged = 2" "entry_count example_merged = 1"
    by code_simp+
  ultimately show ?thesis
    using reachable_example_two reachable_example_merged by simp
qed

text \<open>
  C7, amended.  In every container reached by \<open>insert\<close>, \<open>erase\<close>, \<open>clear\<close>, copying,
  assignment through \<open>value()\<close> and those calls of \<open>advance\<close> that land on a node whose
  leaf flag is not set, \<open>size()\<close> equals the number of nodes whose leaf flag is set,
  excluding the sentinel.  From such a container every successful call keeps the
  equality, but for an \<open>advance\<close> that lands on a node whose leaf flag is set.
\<close>

theorem size_counts_entries:
  assumes "reachable_by legal_unmerged t"
  shows "size_count t = entry_count t \<and>
     (legal t op \<and> run op t = (Inr (), t') \<longrightarrow>
        (size_count t' = entry_count t' \<longleftrightarrow> \<not> merging t op))"
proof -
  have "well_formed t"
    using assms by (intro reachable_well_formed unmerged_reachable)
  then show ?thesis
    using unmerged_size [OF assms] count_run(2) [of t op t'] by auto
qed

theorem size_counts_entries_witness:
  "reachable_by legal_unmerged example_two \<and> size_count example_two = entry_count example_two \<and>
   legal example_two (Erase [0, 0]) \<and> run (Erase [0, 0]) example_two = (Inr (), example_one) \<and>
   size_count example_one = entry_count example_one \<and> \<not> merging example_two (Erase [0, 0]) \<and>
   legal example_two (Advance [0] [2]) \<and>
   run (Advance [0] [2]) example_two = (Inr (), example_merged) \<and>
   size_count example_merged \<noteq> entry_count example_merged \<and>
   merging example_two (Advance [0] [2])"
proof -
  have 1: "legal example_two (Erase [0, 0])" by code_simp
  have 2: "run (Erase [0, 0]) example_two = (Inr (), example_one)" by code_simp
  have 3: "\<not> merging example_two (Erase [0, 0])" by simp
  have 4: "legal example_two (Advance [0] [2])" by code_simp
  have 5: "run (Advance [0] [2]) example_two = (Inr (), example_merged)" by code_simp
  have 6: "merging example_two (Advance [0] [2])" by code_simp
  show ?thesis
    using size_counts_entries [OF unmerged_example_two, of "Erase [0, 0]" example_one]
      size_counts_entries [OF unmerged_example_two, of "Advance [0] [2]" example_merged]
      unmerged_example_two 1 2 3 4 5 6
    by simp
qed

text \<open>
  C9.  On every reachable container \<open>find_longest_prefix()\<close> ends and returns an
  iterator.  The traversal from \<open>begin()\<close> visits exactly the stored keys, each once.
  When the container is empty, that is when no key is stored, the iterator is \<open>end()\<close>.
  Otherwise it is at a stored entry, the one \<open>find\<close> returns for its key, and that key
  is at least as long as every stored key; every key that the traversal visits
  earlier is shorter, so among the longest stored keys it is the first that the
  traversal visits, which is the least of them in the lexicographic order.
\<close>

theorem longest_prefix_is_first_longest:
  assumes "reachable t"
  shows "\<exists>it ks. find_longest_prefix t = Some (Inr it) \<and> forward_keys t = Some (Inr ks) \<and>
     distinct ks \<and> set ks = {k. stored t k} \<and> sorted_wrt visited_before ks \<and>
     (trie_empty t \<longleftrightarrow> ks = []) \<and> (trie_empty t \<longleftrightarrow> (\<forall>k. \<not> stored t k)) \<and>
     (if ks = [] then it = trie_end t
      else at_entry t it \<and>
        (\<exists>j<length ks. iter_key t it = Inr (ks ! j) \<and>
           stored t (ks ! j) \<and> trie_find t (ks ! j) = it \<and>
           (\<forall>k. stored t k \<longrightarrow> length k \<le> length (ks ! j)) \<and>
           (\<forall>k. stored t k \<and> length k = length (ks ! j) \<and> k \<noteq> ks ! j \<longrightarrow>
              visited_before (ks ! j) k \<and> lex_less (ks ! j) k) \<and>
           (\<forall>i<length ks. length (ks ! i) \<le> length (ks ! j)) \<and>
           (\<forall>i<j. length (ks ! i) < length (ks ! j)) \<and>
           (\<forall>i<length ks. i \<noteq> j \<and> length (ks ! i) = length (ks ! j) \<longrightarrow>
              lex_less (ks ! j) (ks ! i))))"
proof -
  have wf: "well_formed t"
    using assms by (rule reachable_well_formed)
  let ?ks = "map (key_path (top_node t)) (entries t)"
  have srt: "sorted_wrt visited_before ?ks"
    using wf by (rule well_formed_keys)
  have dst: "distinct ?ks"
    using wf by (rule well_formed_keys)
  have st: "set ?ks = {k. stored t k}"
    using stored_entries [OF wf] by blast
  have emp: "trie_empty t \<longleftrightarrow> ?ks = []"
    using well_formed_empty [OF wf] by simp
  have "?ks = [] \<longleftrightarrow> set ?ks = {}"
    by (simp only: set_empty)
  also have "\<dots> \<longleftrightarrow> (\<forall>k. \<not> stored t k)"
    unfolding st by blast
  finally have emp': "trie_empty t \<longleftrightarrow> (\<forall>k. \<not> stored t k)"
    using emp by blast
  from find_longest_prefix_correct [OF wf] obtain it where
    it: "find_longest_prefix t = Some (Inr it)"
      "if entries t = [] then it = trie_end t
       else \<exists>j<length (entries t). it = entries t ! j \<and>
        (\<forall>i<length (entries t). length (entries t ! i) \<le> length (entries t ! j)) \<and>
        (\<forall>i<j. length (entries t ! i) < length (entries t ! j))"
    by blast
  have main: "if ?ks = [] then it = trie_end t
      else at_entry t it \<and>
        (\<exists>j<length ?ks. iter_key t it = Inr (?ks ! j) \<and>
           stored t (?ks ! j) \<and> trie_find t (?ks ! j) = it \<and>
           (\<forall>k. stored t k \<longrightarrow> length k \<le> length (?ks ! j)) \<and>
           (\<forall>k. stored t k \<and> length k = length (?ks ! j) \<and> k \<noteq> ?ks ! j \<longrightarrow>
              visited_before (?ks ! j) k \<and> lex_less (?ks ! j) k) \<and>
           (\<forall>i<length ?ks. length (?ks ! i) \<le> length (?ks ! j)) \<and>
           (\<forall>i<j. length (?ks ! i) < length (?ks ! j)) \<and>
           (\<forall>i<length ?ks. i \<noteq> j \<and> length (?ks ! i) = length (?ks ! j) \<longrightarrow>
              lex_less (?ks ! j) (?ks ! i)))"
  proof (cases "entries t = []")
    case True
    then show ?thesis using it(2) by simp
  next
    case False
    with it(2) obtain j where j: "j < length (entries t)" "it = entries t ! j"
        "\<forall>i<length (entries t). length (entries t ! i) \<le> length (entries t ! j)"
        "\<forall>i<j. length (entries t ! i) < length (entries t ! j)"
      by auto
    have jk: "j < length ?ks"
      using j(1) by simp
    have mem: "it \<in> set (entries t)"
      using j(1,2) by simp
    then have e: "at_entry t it"
      by (simp add: at_entry_in_entries)
    have "it \<in> set (leaf_ptrs (top_node t))"
      using mem by (simp add: entries_def)
    then have k: "iter_key t it = Inr (?ks ! j)"
      using j(1,2) by (simp add: entry_key)
    have kp: "?ks ! j = key_path (top_node t) it"
      using j(1,2) by simp
    have "?ks ! j \<in> set ?ks"
      using jk by (rule nth_mem)
    then have s: "stored t (?ks ! j)"
      using st by blast
    have f: "trie_find t (?ks ! j) = it"
      using find_entry [OF wf mem] kp by simp
    have 1: "\<forall>i<length ?ks. length (?ks ! i) \<le> length (?ks ! j)"
      using j(1,3) by simp
    have 2: "\<forall>i<j. length (?ks ! i) < length (?ks ! j)"
      using j(1,4) by simp
    have vb: "visited_before (?ks ! j) (?ks ! i) \<and> lex_less (?ks ! j) (?ks ! i)"
      if i: "i < length ?ks" and ne: "i \<noteq> j" and len: "length (?ks ! i) = length (?ks ! j)"
      for i
    proof -
      have "\<not> i < j"
        using 2 len by auto
      then have "j < i"
        using ne by simp
      then have v: "visited_before (?ks ! j) (?ks ! i)"
        using srt i sorted_wrt_nth_less [of visited_before ?ks j i] by blast
      then have "lex_less (?ks ! j) (?ks ! i)"
        using len by (intro visited_before_same_length) auto
      then show ?thesis
        using v by simp
    qed
    have 3: "\<forall>i<length ?ks. i \<noteq> j \<and> length (?ks ! i) = length (?ks ! j) \<longrightarrow>
        lex_less (?ks ! j) (?ks ! i)"
      using vb by blast
    have 4: "\<forall>k. stored t k \<longrightarrow> length k \<le> length (?ks ! j)"
    proof (intro allI impI)
      fix k assume "stored t k"
      then have "k \<in> set ?ks"
        using st by blast
      then obtain i where "i < length ?ks" "?ks ! i = k"
        by (auto simp only: in_set_conv_nth)
      then show "length k \<le> length (?ks ! j)"
        using 1 by blast
    qed
    have 5: "\<forall>k. stored t k \<and> length k = length (?ks ! j) \<and> k \<noteq> ?ks ! j \<longrightarrow>
        visited_before (?ks ! j) k \<and> lex_less (?ks ! j) k"
    proof (intro allI impI)
      fix k assume a: "stored t k \<and> length k = length (?ks ! j) \<and> k \<noteq> ?ks ! j"
      then have "k \<in> set ?ks"
        using st by blast
      then obtain i where i: "i < length ?ks" "?ks ! i = k"
        by (auto simp only: in_set_conv_nth)
      then have "i \<noteq> j"
        using a by blast
      then show "visited_before (?ks ! j) k \<and> lex_less (?ks ! j) k"
        using vb [of i] i a by simp
    qed
    have "?ks \<noteq> []"
      using False by simp
    then show ?thesis
      using e k jk s f 1 2 3 4 5 by (simp only: if_False) blast
  qed
  show ?thesis
    apply (rule exI [of _ it])
    apply (rule exI [of _ ?ks])
    apply (intro conjI)
           apply (rule it(1))
          apply (rule forward_keys_correct [OF wf])
         apply (rule dst)
        apply (rule st)
       apply (rule srt)
      apply (rule emp)
     apply (rule emp')
    apply (rule main)
    done
qed

theorem longest_prefix_is_first_longest_witness:
  "reachable example_tie \<and> find_longest_prefix example_tie = Some (Inr [0, 0]) \<and>
   forward_keys example_tie = Some (Inr [[1, 2], [1, 3], [1]]) \<and>
   set [[1, 2], [1, 3], [1]] = {k. stored example_tie k} \<and> \<not> trie_empty example_tie \<and>
   at_entry example_tie [0, 0] \<and> iter_key example_tie [0, 0] = Inr ([[1, 2], [1, 3], [1]] ! 0) \<and>
   stored example_tie [1, 2] \<and> trie_find example_tie [1, 2] = [0, 0] \<and>
   lex_less [1, 2] [1, 3 :: 8 word] \<and>
   find_longest_prefix (trie_new :: (8 word, nat) trie) = Some (Inr (trie_end trie_new))"
proof -
  have f: "forward_keys example_tie = Some (Inr [[1, 2], [1, 3], [1]])"
    by code_simp
  have l: "find_longest_prefix example_tie = Some (Inr [0, 0])"
    by code_simp
  have n: "find_longest_prefix (trie_new :: (8 word, nat) trie) = Some (Inr (trie_end trie_new))"
    by code_simp
  have x: "lex_less [1, 2] [1, 3 :: 8 word]"
    by (simp add: lex_less_def)
  have s: "stored example_tie [1, 2]"
    by code_simp
  have g: "trie_find example_tie [1, 2] = [0, 0]"
    by code_simp
  from longest_prefix_is_first_longest [OF reachable_example_tie] obtain it ks where
    r: "find_longest_prefix example_tie = Some (Inr it)" "forward_keys example_tie = Some (Inr ks)"
      "set ks = {k. stored example_tie k}"
      "trie_empty example_tie \<longleftrightarrow> ks = []"
      "if ks = [] then it = trie_end example_tie else at_entry example_tie it"
    by (metis (no_types, lifting))
  from r(1,2) f l have eq: "it = [0, 0]" "ks = [[1, 2], [1, 3], [1]]"
    by simp_all
  have k: "iter_key example_tie [0, 0] = Inr ([[1, 2], [1, 3], [1]] ! 0)"
    by code_simp
  have a: "\<not> trie_empty example_tie" "at_entry example_tie [0, 0]"
    using r(4,5) eq by simp_all
  have b: "set [[1, 2], [1, 3], [1]] = {k. stored example_tie k}"
    using r(3) eq by simp
  show ?thesis
    using a b k f l n x s g reachable_example_tie by blast
qed

text \<open>
  C3.  On a reachable container, for every stored key \<open>k\<close>, \<open>erase(find(k))\<close> returns;
  afterwards \<open>find(k)\<close> is \<open>end()\<close>, \<open>size()\<close> is one less than before, and every other
  stored key is still stored and \<open>find\<close> leads to the value it had (whether or not
  the key shares a prefix with \<open>k\<close>).
\<close>

theorem erase_removes_key:
  assumes "reachable t" and "stored t k"
  shows "\<exists>t'. trie_erase t (trie_find t k) = (Inr (), t') \<and> trie_find t' k = trie_end t' \<and>
     size_count t' + 1 = size_count t \<and>
     (\<forall>k'. k' \<noteq> k \<and> stored t k' \<longrightarrow>
        stored t' k' \<and> iter_value t' (trie_find t' k') = iter_value t (trie_find t k'))"
proof -
  have wf: "well_formed t"
    using assms(1) by (rule reachable_well_formed)
  let ?p = "trie_find t k"
  have e: "at_entry t ?p" and kp: "key_path (top_node t) ?p = k"
    using stored_has_value [OF wf assms(2)] by auto
  from well_formed_erase [OF wf e] obtain t' where
    er: "trie_erase t ?p = (Inr (), t')" and wf': "well_formed t'"
    and sz: "size_count t' = dec_size (size_count t)"
    by blast
  have "0 < entry_count t"
    using e by (auto simp: at_entry_in_entries entry_count_def)
  then have "0 < size_count t"
    using reachable_entry_count_le [OF assms(1)] by simp
  then have size: "size_count t' + 1 = size_count t"
    using sz by (simp add: dec_size_def)
  have b: "map (\<lambda>q. (key_path (top_node t') q, value_at (top_node t') q)) (entries t') =
     filter (\<lambda>(k', v). k' \<noteq> k)
       (map (\<lambda>q. (key_path (top_node t) q, value_at (top_node t) q)) (entries t))"
    using erase_entry_bindings [OF wf e er wf'] kp by simp
  have gone: "\<not> stored t' k"
  proof
    assume s: "stored t' k"
    then obtain v where "iter_value t' (trie_find t' k) = Inr v"
      using stored_has_value(1) [OF wf'] by blast
    then have "(k, v) \<in> set (map (\<lambda>q. (key_path (top_node t') q, value_at (top_node t') q)) (entries t'))"
      using s entry_binding_iff [OF wf', of k v] by simp
    then show False
      unfolding b by simp
  qed
  have others: "stored t' k' \<and> iter_value t' (trie_find t' k') = iter_value t (trie_find t k')"
    if "k' \<noteq> k" and s: "stored t k'" for k'
  proof -
    obtain v where v: "iter_value t (trie_find t k') = Inr v"
      using stored_has_value(1) [OF wf s] by blast
    then have "(k', v) \<in> set (map (\<lambda>q. (key_path (top_node t) q, value_at (top_node t) q)) (entries t))"
      using s entry_binding_iff [OF wf, of k' v] by simp
    then have "(k', v) \<in> set (map (\<lambda>q. (key_path (top_node t') q, value_at (top_node t') q)) (entries t'))"
      unfolding b using that(1) by simp
    then show ?thesis
      using entry_binding_iff [OF wf', of k' v] v by simp
  qed
  show ?thesis
    using er gone size others by (intro exI [of _ t']) (simp add: stored_def)
qed

theorem erase_removes_key_witness:
  "reachable example_two \<and> stored example_two [1] \<and> [1, 2] \<noteq> [1 :: 8 word] \<and>
   stored example_two [1, 2] \<and>
   (\<exists>t'. trie_erase example_two (trie_find example_two [1]) = (Inr (), t') \<and>
      trie_find t' [1] = trie_end t' \<and> size_count t' + 1 = size_count example_two \<and>
      stored t' [1, 2] \<and>
      iter_value t' (trie_find t' [1, 2]) = iter_value example_two (trie_find example_two [1, 2])) \<and>
   iter_value example_two (trie_find example_two [1, 2]) = Inr (Some 20)"
proof -
  have s: "stored example_two [1]" "stored example_two [1, 2]"
    by code_simp+
  have v: "iter_value example_two (trie_find example_two [1, 2]) = Inr (Some 20)"
    by code_simp
  from erase_removes_key [OF reachable_example_two s(1)] obtain t' where
    t': "trie_erase example_two (trie_find example_two [1]) = (Inr (), t')"
      "trie_find t' [1] = trie_end t'" "size_count t' + 1 = size_count example_two"
      "\<forall>k'. k' \<noteq> [1] \<and> stored example_two k' \<longrightarrow>
        stored t' k' \<and> iter_value t' (trie_find t' k') = iter_value example_two (trie_find example_two k')"
    by blast
  from t'(4) s(2) have "stored t' [1, 2] \<and>
      iter_value t' (trie_find t' [1, 2]) = iter_value example_two (trie_find example_two [1, 2])"
    by simp
  then show ?thesis
    using t'(1,2,3) s v reachable_example_two by auto
qed

end
